theory Spec2Isabelle
  imports
    Main
    "HOL-Library.AList"
    "HOL-Library.Multiset"
    "HOL-Library.Char_ord"
    "HOL-Library.List_Lexorder"
begin

section \<open>JavaScript values and the JSON codec\<close>

text \<open>
  The server stores every block payload as the text \<^verbatim>\<open>JSON.stringify(data)\<close> and reads it
  back with \<^verbatim>\<open>parseJsonSafe\<close>, a \<^verbatim>\<open>try { JSON.parse(s) } catch { fallback }\<close>.
  \<^verbatim>\<open>JSON.parse\<close> and \<^verbatim>\<open>JSON.stringify\<close> are built-ins of the language, so they are
  modelled here from the JSON grammar, on this fragment:
  \<^item> text is a \<^typ>\<open>string\<close>, so code units are 8 bits wide; an escape \<^verbatim>\<open>\uXXXX\<close> above
    \<^verbatim>\<open>00FF\<close> is read modulo 256 (it changes the content of a string, never whether a text
    parses);
  \<^item> a number written with digits only is an \<^typ>\<open>int\<close> (\<open>JNum\<close>); a number with a fraction
    or an exponent is kept as its lexeme (\<open>JNumLex\<close>), since doubles are not modelled;
  \<^item> a number written with digits only is kept exactly, whatever its size, where
    \<^verbatim>\<open>JSON.parse\<close> rounds to a double (beyond \<^verbatim>\<open>2^53\<close> the two differ);
  \<^item> an object is the list of its own properties in creation order; a repeated key
    overwrites the earlier value in place, as property definition does. The language
    lists keys that are array indices (\<^verbatim>\<open>"0"\<close>, \<^verbatim>\<open>"1"\<close>, ...) first and in ascending
    order; no payload of the server has such a key, and the model does not reorder them.
  A thrown \<^verbatim>\<open>SyntaxError\<close> is the value \<open>None\<close>.
\<close>

datatype json =
    JNull
  | JBool bool
  | JNum int
  | JNumLex string
  | JStr string
  | JArr "json list"
  | JObj "(string \<times> json) list"

subsection \<open>Serialisation\<close>

definition digit_char :: "nat \<Rightarrow> char" where
  "digit_char d = char_of (48 + d)"

fun show_nat :: "nat \<Rightarrow> string" where
  "show_nat n = (if n < 10 then [digit_char n] else show_nat (n div 10) @ [digit_char (n mod 10)])"

declare show_nat.simps [simp del]

definition show_int :: "int \<Rightarrow> string" where
  "show_int i = (if i < 0 then CHR ''-'' # show_nat (nat (- i)) else show_nat (nat i))"

definition hex_char :: "nat \<Rightarrow> char" where
  "hex_char d = (if d < 10 then char_of (48 + d) else char_of (87 + d))"

text \<open>\<^verbatim>\<open>QuoteJSONString\<close>: the quotation mark, the backslash and the control characters are
  escaped, everything else is copied.\<close>

definition quote_char :: "char \<Rightarrow> string" where
  "quote_char c =
     (if c = CHR 0x22 then [CHR 0x5C, CHR 0x22]
      else if c = CHR 0x5C then [CHR 0x5C, CHR 0x5C]
      else if c = CHR 0x08 then [CHR 0x5C, CHR ''b'']
      else if c = CHR 0x0C then [CHR 0x5C, CHR ''f'']
      else if c = CHR 0x0A then [CHR 0x5C, CHR ''n'']
      else if c = CHR 0x0D then [CHR 0x5C, CHR ''r'']
      else if c = CHR 0x09 then [CHR 0x5C, CHR ''t'']
      else if (of_char c :: nat) < 32
        then [CHR 0x5C, CHR ''u'', CHR ''0'', CHR ''0'',
              hex_char (of_char c div 16), hex_char (of_char c mod 16)]
      else [c])"

definition quote :: "string \<Rightarrow> string" where
  "quote s = CHR 0x22 # concat (map quote_char s) @ [CHR 0x22]"

fun json_stringify :: "json \<Rightarrow> string"
  and stringify_elems :: "json list \<Rightarrow> string"
  and stringify_members :: "(string \<times> json) list \<Rightarrow> string" where
  "json_stringify JNull = ''null''"
| "json_stringify (JBool b) = (if b then ''true'' else ''false'')"
| "json_stringify (JNum i) = show_int i"
| "json_stringify (JNumLex l) = l"
| "json_stringify (JStr s) = quote s"
| "json_stringify (JArr vs) = CHR ''['' # stringify_elems vs @ '']''"
| "json_stringify (JObj kvs) = CHR ''{'' # stringify_members kvs @ ''}''"
| "stringify_elems [] = []"
| "stringify_elems [v] = json_stringify v"
| "stringify_elems (v # w # vs) = json_stringify v @ CHR '','' # stringify_elems (w # vs)"
| "stringify_members [] = []"
| "stringify_members [(k, v)] = quote k @ CHR '':'' # json_stringify v"
| "stringify_members ((k, v) # m # kvs) =
     quote k @ CHR '':'' # json_stringify v @ CHR '','' # stringify_members (m # kvs)"

definition JSON_stringify :: "json \<Rightarrow> string" where
  "JSON_stringify v = json_stringify v"

subsection \<open>Parsing\<close>

definition is_digit :: "char \<Rightarrow> bool" where
  "is_digit c \<longleftrightarrow> (48::nat) \<le> of_char c \<and> (of_char c :: nat) \<le> 57"

definition is_ws :: "char \<Rightarrow> bool" where
  "is_ws c \<longleftrightarrow> c = CHR 0x20 \<or> c = CHR 0x09 \<or> c = CHR 0x0A \<or> c = CHR 0x0D"

definition skip_ws :: "string \<Rightarrow> string" where
  "skip_ws s = dropWhile is_ws s"

definition digit_val :: "char \<Rightarrow> nat" where
  "digit_val c = of_char c - 48"

definition nat_of_digits :: "string \<Rightarrow> nat" where
  "nat_of_digits ds = foldl (\<lambda>acc c. 10 * acc + digit_val c) 0 ds"

definition hex_val :: "char \<Rightarrow> nat option" where
  "hex_val c =
     (let n = (of_char c :: nat) in
      if 48 \<le> n \<and> n \<le> 57 then Some (n - 48)
      else if 97 \<le> n \<and> n \<le> 102 then Some (n - 87)
      else if 65 \<le> n \<and> n \<le> 70 then Some (n - 55)
      else None)"

definition hex4 :: "char \<Rightarrow> char \<Rightarrow> char \<Rightarrow> char \<Rightarrow> nat option" where
  "hex4 a b c d =
     (case (hex_val a, hex_val b, hex_val c, hex_val d) of
        (Some w, Some x, Some y, Some z) \<Rightarrow> Some (((w * 16 + x) * 16 + y) * 16 + z)
      | _ \<Rightarrow> None)"

definition unescape :: "char \<Rightarrow> char option" where
  "unescape e =
     (if e = CHR 0x22 then Some (CHR 0x22)
      else if e = CHR 0x5C then Some (CHR 0x5C)
      else if e = CHR ''/'' then Some (CHR ''/'')
      else if e = CHR ''b'' then Some (CHR 0x08)
      else if e = CHR ''f'' then Some (CHR 0x0C)
      else if e = CHR ''n'' then Some (CHR 0x0A)
      else if e = CHR ''r'' then Some (CHR 0x0D)
      else if e = CHR ''t'' then Some (CHR 0x09)
      else None)"

definition cons_result :: "char \<Rightarrow> (string \<times> string) option \<Rightarrow> (string \<times> string) option" where
  "cons_result c r = (case r of None \<Rightarrow> None | Some (s, rest) \<Rightarrow> Some (c # s, rest))"

text \<open>The characters of a string literal, after its opening quotation mark: the result is
  the string and the text after the closing quotation mark.\<close>

fun parse_chars :: "string \<Rightarrow> (string \<times> string) option" where
  "parse_chars [] = None"
| "parse_chars (c # cs) =
     (if c = CHR 0x22 then Some ([], cs)
      else if c = CHR 0x5C then
        (case cs of
           [] \<Rightarrow> None
         | e # es \<Rightarrow>
             if e = CHR ''u'' then
               (case es of
                  h1 # h2 # h3 # h4 # rest \<Rightarrow>
                    (case hex4 h1 h2 h3 h4 of
                       None \<Rightarrow> None
                     | Some n \<Rightarrow> cons_result (char_of n) (parse_chars rest))
                | _ \<Rightarrow> None)
             else
               (case unescape e of
                  None \<Rightarrow> None
                | Some x \<Rightarrow> cons_result x (parse_chars es)))
      else if (of_char c :: nat) < 32 then None
      else cons_result c (parse_chars cs))"

definition parse_frac :: "string \<Rightarrow> (string \<times> string) option" where
  "parse_frac s =
     (case s of
        [] \<Rightarrow> Some ([], [])
      | c # cs \<Rightarrow>
          if c = CHR ''.'' then
            (if takeWhile is_digit cs = [] then None
             else Some (c # takeWhile is_digit cs, dropWhile is_digit cs))
          else Some ([], s))"

definition parse_exp :: "string \<Rightarrow> (string \<times> string) option" where
  "parse_exp s =
     (case s of
        [] \<Rightarrow> Some ([], [])
      | c # cs \<Rightarrow>
          if c = CHR ''e'' \<or> c = CHR ''E'' then
            (let sg = (case cs of
                         [] \<Rightarrow> []
                       | d # ds \<Rightarrow> if d = CHR ''+'' \<or> d = CHR ''-'' then [d] else []);
                 r = drop (length sg) cs
             in if takeWhile is_digit r = [] then None
                else Some (c # sg @ takeWhile is_digit r, dropWhile is_digit r))
          else Some ([], s))"

definition parse_number :: "string \<Rightarrow> (json \<times> string) option" where
  "parse_number s =
     (let neg = (case s of [] \<Rightarrow> False | c # _ \<Rightarrow> c = CHR ''-'');
          s1 = (if neg then tl s else s);
          ds = takeWhile is_digit s1;
          s2 = dropWhile is_digit s1
      in if ds = [] \<or> (1 < length ds \<and> hd ds = CHR ''0'') then None
         else
           (case parse_frac s2 of
              None \<Rightarrow> None
            | Some (fr, s3) \<Rightarrow>
                (case parse_exp s3 of
                   None \<Rightarrow> None
                 | Some (ex, s4) \<Rightarrow>
                     if fr = [] \<and> ex = []
                     then Some (JNum (if neg then - int (nat_of_digits ds)
                                      else int (nat_of_digits ds)), s4)
                     else Some (JNumLex ((if neg then ''-'' else []) @ ds @ fr @ ex), s4))))"

definition parse_literal :: "string \<Rightarrow> json \<Rightarrow> string \<Rightarrow> (json \<times> string) option" where
  "parse_literal w v s = (if take (length w) s = w then Some (v, drop (length w) s) else None)"

definition define_props :: "(string \<times> json) list \<Rightarrow> (string \<times> json) list" where
  "define_props kvs = foldl (\<lambda>acc (k, v). AList.update k v acc) [] kvs"

text \<open>The recursive descent over values. The first argument bounds the number of nested
  calls; \<open>JSON_parse\<close> below starts it above the length of the text, which is enough for
  every text (lemma \<open>JSON_parse_any_bound\<close>).\<close>

fun parse_value :: "nat \<Rightarrow> string \<Rightarrow> (json \<times> string) option"
  and parse_elems :: "nat \<Rightarrow> string \<Rightarrow> (json list \<times> string) option"
  and parse_members :: "nat \<Rightarrow> string \<Rightarrow> ((string \<times> json) list \<times> string) option" where
  "parse_value 0 s = None"
| "parse_value (Suc n) s =
     (case skip_ws s of
        [] \<Rightarrow> None
      | c # cs \<Rightarrow>
          if c = CHR 0x22 then
            (case parse_chars cs of None \<Rightarrow> None | Some (x, r) \<Rightarrow> Some (JStr x, r))
          else if c = CHR ''['' then
            (case skip_ws cs of
               [] \<Rightarrow> None
             | d # ds \<Rightarrow>
                 if d = CHR '']'' then Some (JArr [], ds)
                 else (case parse_elems n cs of
                         None \<Rightarrow> None
                       | Some (vs, r) \<Rightarrow> Some (JArr vs, r)))
          else if c = CHR ''{'' then
            (case skip_ws cs of
               [] \<Rightarrow> None
             | d # ds \<Rightarrow>
                 if d = CHR ''}'' then Some (JObj [], ds)
                 else (case parse_members n cs of
                         None \<Rightarrow> None
                       | Some (kvs, r) \<Rightarrow> Some (JObj (define_props kvs), r)))
          else if c = CHR ''t'' then parse_literal ''true'' (JBool True) (c # cs)
          else if c = CHR ''f'' then parse_literal ''false'' (JBool False) (c # cs)
          else if c = CHR ''n'' then parse_literal ''null'' JNull (c # cs)
          else parse_number (c # cs))"
| "parse_elems 0 s = None"
| "parse_elems (Suc n) s =
     (case parse_value n s of
        None \<Rightarrow> None
      | Some (v, r) \<Rightarrow>
          (case skip_ws r of
             [] \<Rightarrow> None
           | d # ds \<Rightarrow>
               if d = CHR '','' then
                 (case parse_elems n ds of
                    None \<Rightarrow> None
                  | Some (vs, r') \<Rightarrow> Some (v # vs, r'))
               else if d = CHR '']'' then Some ([v], ds)
               else None))"
| "parse_members 0 s = None"
| "parse_members (Suc n) s =
     (case skip_ws s of
        [] \<Rightarrow> None
      | q # cs \<Rightarrow>
          if q \<noteq> CHR 0x22 then None
          else
            (case parse_chars cs of
               None \<Rightarrow> None
             | Some (k, r) \<Rightarrow>
                 (case skip_ws r of
                    [] \<Rightarrow> None
                  | col # r1 \<Rightarrow>
                      if col \<noteq> CHR '':'' then None
                      else
                        (case parse_value n r1 of
                           None \<Rightarrow> None
                         | Some (v, r2) \<Rightarrow>
                             (case skip_ws r2 of
                                [] \<Rightarrow> None
                              | d # ds \<Rightarrow>
                                  if d = CHR '','' then
                                    (case parse_members n ds of
                                       None \<Rightarrow> None
                                     | Some (kvs, r') \<Rightarrow> Some ((k, v) # kvs, r'))
                                  else if d = CHR ''}'' then Some ([(k, v)], ds)
                                  else None)))))"

definition JSON_parse :: "string \<Rightarrow> json option" where
  "JSON_parse s =
     (case parse_value (Suc (length s)) s of
        None \<Rightarrow> None
      | Some (v, r) \<Rightarrow> if skip_ws r = [] then Some v else None)"

subsection \<open>What the server does with values\<close>

text \<open>\<^verbatim>\<open>function parseJsonSafe(s, fallback) { try { return JSON.parse(s); } catch { return fallback; } }\<close>\<close>

definition parseJsonSafe :: "string \<Rightarrow> json \<Rightarrow> json" where
  "parseJsonSafe s fallback = (case JSON_parse s of Some v \<Rightarrow> v | None \<Rightarrow> fallback)"

text \<open>A form field is a string or is missing (\<^verbatim>\<open>undefined\<close>). \<^verbatim>\<open>JSON.parse\<close> converts its
  argument to a string first, and \<^verbatim>\<open>undefined\<close> becomes the text \<^verbatim>\<open>undefined\<close>.\<close>

definition js_to_string :: "string option \<Rightarrow> string" where
  "js_to_string x = (case x of None \<Rightarrow> ''undefined'' | Some s \<Rightarrow> s)"

text \<open>\<^verbatim>\<open>x || d\<close> on a form field: the empty string and \<^verbatim>\<open>undefined\<close> are falsy.\<close>

definition js_or :: "string option \<Rightarrow> string \<Rightarrow> string" where
  "js_or x d = (case x of None \<Rightarrow> d | Some s \<Rightarrow> if s = [] then d else s)"

definition falsy_field :: "string option \<Rightarrow> bool" where
  "falsy_field x \<longleftrightarrow> (case x of None \<Rightarrow> True | Some s \<Rightarrow> s = [])"

text \<open>\<^verbatim>\<open>parseInt(x, 10)\<close>: leading white space is dropped, a sign is read, and the longest
  run of decimal digits is the value; with no digit the result is \<^verbatim>\<open>NaN\<close> (\<open>None\<close>).\<close>

definition js_is_space :: "char \<Rightarrow> bool" where
  "js_is_space c \<longleftrightarrow> (of_char c :: nat) \<in> set [9, 10, 11, 12, 13, 32, 160]"

definition parseInt :: "string \<Rightarrow> int option" where
  "parseInt s =
     (let t = dropWhile js_is_space s;
          neg = (case t of [] \<Rightarrow> False | c # _ \<Rightarrow> c = CHR ''-'');
          u = (case t of [] \<Rightarrow> [] | c # cs \<Rightarrow> if c = CHR ''-'' \<or> c = CHR ''+'' then cs else t);
          ds = takeWhile is_digit u
      in if ds = [] then None
         else Some (if neg then - int (nat_of_digits ds) else int (nat_of_digits ds)))"

text \<open>\<^verbatim>\<open>!parsed\<close> on a parsed value: \<^verbatim>\<open>null\<close>, \<^verbatim>\<open>false\<close>, zero and the empty string are falsy.
  A number kept as a lexeme is zero when its mantissa has no digit but \<^verbatim>\<open>0\<close>.\<close>

definition js_falsy :: "json \<Rightarrow> bool" where
  "js_falsy v =
     (case v of
        JNull \<Rightarrow> True
      | JBool b \<Rightarrow> \<not> b
      | JNum i \<Rightarrow> i = 0
      | JNumLex l \<Rightarrow>
          list_all (\<lambda>c. \<not> is_digit c \<or> c = CHR ''0'')
            (takeWhile (\<lambda>c. c \<noteq> CHR ''e'' \<and> c \<noteq> CHR ''E'') l)
      | JStr s \<Rightarrow> s = []
      | JArr _ \<Rightarrow> False
      | JObj _ \<Rightarrow> False)"

text \<open>\<^verbatim>\<open>v.questions\<close> and the like: an own property of an object; the prototypes of strings,
  numbers, booleans and arrays have none of the names the server reads.\<close>

definition js_get :: "json \<Rightarrow> string \<Rightarrow> json option" where
  "js_get v k = (case v of JObj kvs \<Rightarrow> map_of kvs k | _ \<Rightarrow> None)"

definition Array_isArray :: "json option \<Rightarrow> bool" where
  "Array_isArray x = (case x of Some (JArr _) \<Rightarrow> True | _ \<Rightarrow> False)"

section \<open>The store\<close>

text \<open>
  The tables of \<^verbatim>\<open>initDb\<close> that the block and account handlers use, one record per row
  and one list per table, in insertion order. A timestamp is the text \<^verbatim>\<open>nowIso()\<close>
  returned; the handlers take it as an argument. A route parameter that names a page or
  a block is only ever bound to \<^verbatim>\<open>id=?\<close>, and is given as the row id it denotes.
\<close>

type_synonym timestamp = string

record user_row =
  user_id :: nat
  user_username :: string
  user_password_hash :: string
  user_role :: string
  user_created_at :: timestamp

record page_row =
  page_id :: nat
  page_title :: string
  page_slug :: string
  page_audience :: string
  page_status :: string
  page_created_at :: timestamp
  page_updated_at :: timestamp

record block_row =
  block_id :: nat
  block_page_id :: nat
  block_type :: string
  block_data_json :: string
  block_position :: int
  block_created_at :: timestamp
  block_updated_at :: timestamp

text \<open>
  The database: the three tables, the \<^verbatim>\<open>AUTOINCREMENT\<close> counter of each, and the one
  setting of the connection that a statement of the server depends on. SQLite enforces
  foreign keys, and so \<^verbatim>\<open>ON DELETE CASCADE\<close>, only on a connection that has run
  \<^verbatim>\<open>PRAGMA foreign_keys = ON\<close>; a new connection has it off.
\<close>

record database =
  users :: "user_row list"
  pages :: "page_row list"
  blocks :: "block_row list"
  users_seq :: nat
  pages_seq :: nat
  blocks_seq :: nat
  foreign_keys :: bool

datatype sqlite_error = SQLITE_CONSTRAINT

definition empty_file :: database where
  "empty_file =
     \<lparr>users = [], pages = [], blocks = [], users_seq = 0, pages_seq = 0, blocks_seq = 0,
      foreign_keys = False\<rparr>"

text \<open>\<^verbatim>\<open>openDb\<close> is \<^verbatim>\<open>new sqlite3.Database(DB_PATH)\<close>: a new connection to the file.\<close>

definition openDb :: "database \<Rightarrow> database" where
  "openDb file = file\<lparr>foreign_keys := False\<rparr>"

text \<open>\<^verbatim>\<open>initDb\<close> opens the connection and runs four \<^verbatim>\<open>CREATE TABLE IF NOT EXISTS\<close>, which
  leave existing rows alone; it runs no \<^verbatim>\<open>PRAGMA\<close>.\<close>

definition initDb :: "database \<Rightarrow> database" where
  "initDb file = openDb file"

text \<open>An \<^verbatim>\<open>AUTOINCREMENT\<close> key is one above the largest key the table ever held.\<close>

definition next_rowid :: "nat \<Rightarrow> nat list \<Rightarrow> nat" where
  "next_rowid seq ids = Suc (fold max ids seq)"

subsection \<open>Statements on \<^verbatim>\<open>users\<close>\<close>

text \<open>\<^verbatim>\<open>SELECT * FROM users WHERE username=?\<close>; a missing field is bound as \<^verbatim>\<open>NULL\<close>, which
  equals nothing.\<close>

definition select_user_by_username :: "database \<Rightarrow> string option \<Rightarrow> user_row option" where
  "select_user_by_username db name =
     (case name of
        None \<Rightarrow> None
      | Some n \<Rightarrow> find (\<lambda>r. user_username r = n) (users db))"

text \<open>\<^verbatim>\<open>SELECT id, username, role, created_at FROM users ORDER BY created_at DESC\<close>: the
  rows by descending \<^verbatim>\<open>created_at\<close>, rows with the same \<^verbatim>\<open>created_at\<close> in table order.\<close>

definition select_users_listing :: "database \<Rightarrow> (nat \<times> string \<times> string \<times> timestamp) list" where
  "select_users_listing db =
     map (\<lambda>r. (user_id r, user_username r, user_role r, user_created_at r))
       (rev (sort_key user_created_at (rev (users db))))"

text \<open>\<^verbatim>\<open>INSERT INTO users (username, password_hash, role, created_at) VALUES (?,?,?,?)\<close>
  under \<^verbatim>\<open>username TEXT UNIQUE\<close> and \<^verbatim>\<open>CHECK(role IN ('admin','editor'))\<close>.\<close>

definition insert_user ::
  "database \<Rightarrow> string \<Rightarrow> string \<Rightarrow> string \<Rightarrow> timestamp \<Rightarrow> sqlite_error + database" where
  "insert_user db name hash role t =
     (if name \<in> set (map user_username (users db)) \<or> role \<notin> set [''admin'', ''editor'']
      then Inl SQLITE_CONSTRAINT
      else
        (let i = next_rowid (users_seq db) (map user_id (users db)) in
         Inr (db\<lparr>users := users db @
                    [\<lparr>user_id = i, user_username = name, user_password_hash = hash,
                      user_role = role, user_created_at = t\<rparr>],
                 users_seq := i\<rparr>)))"

text \<open>
  The user delete handler reads its route parameter twice, once with \<^verbatim>\<open>parseInt\<close> and once
  by binding the text to \<^verbatim>\<open>id=?\<close>, so for this statement the parameter is the text itself.
  SQLite compares a text with an \<^verbatim>\<open>INTEGER PRIMARY KEY\<close> after applying numeric affinity
  to the text: a text that is a well-formed numeric literal (spaces, a sign, digits with
  an optional decimal point, an optional exponent, spaces) whose value is an integer
  counts as that integer, and any other text equals no key. The value is computed
  exactly here, while SQLite reads the literal into a double: the two agree on a literal
  of at most 15 significant digits, and on a longer one SQLite may round to an integer
  where this function finds none (\<^verbatim>\<open>2.0000000000000000001\<close> is the key 2 for SQLite).
  The 64-bit range is not modelled.
\<close>

definition sqlite_is_space :: "char \<Rightarrow> bool" where
  "sqlite_is_space c \<longleftrightarrow> (of_char c :: nat) \<in> set [9, 10, 11, 12, 13, 32]"

definition strip_sign :: "string \<Rightarrow> bool \<times> string" where
  "strip_sign s =
     (case s of
        [] \<Rightarrow> (False, [])
      | c # cs \<Rightarrow> if c = CHR ''-'' then (True, cs) else if c = CHR ''+'' then (False, cs)
                  else (False, s))"

definition sqlite_exponent :: "string \<Rightarrow> (int \<times> string) option" where
  "sqlite_exponent s =
     (case s of
        [] \<Rightarrow> Some (0, [])
      | c # cs \<Rightarrow>
          if c = CHR ''e'' \<or> c = CHR ''E'' then
            (let (eneg, w) = strip_sign cs; ed = takeWhile is_digit w in
             if ed = [] then None
             else Some (if eneg then - int (nat_of_digits ed) else int (nat_of_digits ed),
                        dropWhile is_digit w))
          else Some (0, s))"

definition sqlite_integer_of_text :: "string \<Rightarrow> int option" where
  "sqlite_integer_of_text s =
     (let (neg, u) = strip_sign (dropWhile sqlite_is_space s);
          ip = takeWhile is_digit u;
          u1 = dropWhile is_digit u;
          fp = (case u1 of [] \<Rightarrow> [] | c # cs \<Rightarrow> if c = CHR ''.'' then takeWhile is_digit cs else []);
          u2 = (case u1 of [] \<Rightarrow> [] | c # cs \<Rightarrow> if c = CHR ''.'' then dropWhile is_digit cs else u1)
      in case sqlite_exponent u2 of
           None \<Rightarrow> None
         | Some (ex, u3) \<Rightarrow>
             if ip @ fp = [] \<or> dropWhile sqlite_is_space u3 \<noteq> [] then None
             else
               (let m = int (nat_of_digits (ip @ fp));
                    e = ex - int (length fp);
                    sg = (if neg then - 1 else 1)
                in if 0 \<le> e then Some (sg * m * 10 ^ nat e)
                   else if m mod 10 ^ nat (- e) = 0 then Some (sg * (m div 10 ^ nat (- e)))
                   else None))"

text \<open>\<^verbatim>\<open>DELETE FROM users WHERE id=?\<close> with the text of the route parameter bound.\<close>

definition delete_user :: "database \<Rightarrow> string \<Rightarrow> database" where
  "delete_user db param =
     (case sqlite_integer_of_text param of
        None \<Rightarrow> db
      | Some i \<Rightarrow> db\<lparr>users := filter (\<lambda>r. int (user_id r) \<noteq> i) (users db)\<rparr>)"

subsection \<open>Statements on \<^verbatim>\<open>pages\<close>\<close>

definition select_page_by_id :: "database \<Rightarrow> nat \<Rightarrow> page_row option" where
  "select_page_by_id db i = find (\<lambda>p. page_id p = i) (pages db)"

text \<open>\<^verbatim>\<open>SELECT * FROM pages WHERE slug=? AND status='published'\<close>\<close>

definition select_published_page :: "database \<Rightarrow> string \<Rightarrow> page_row option" where
  "select_published_page db s =
     find (\<lambda>p. page_slug p = s \<and> page_status p = ''published'') (pages db)"

text \<open>\<^verbatim>\<open>INSERT INTO pages (title, slug, audience, status, created_at, updated_at)\<close> under
  \<^verbatim>\<open>slug TEXT UNIQUE\<close> and the two \<^verbatim>\<open>CHECK\<close> constraints.\<close>

definition insert_page ::
  "database \<Rightarrow> string \<Rightarrow> string \<Rightarrow> string \<Rightarrow> string \<Rightarrow> timestamp \<Rightarrow> sqlite_error + database" where
  "insert_page db title slug audience status t =
     (if slug \<in> set (map page_slug (pages db))
         \<or> audience \<notin> set [''junior'', ''undergrad'', ''general'']
         \<or> status \<notin> set [''draft'', ''published'']
      then Inl SQLITE_CONSTRAINT
      else
        (let i = next_rowid (pages_seq db) (map page_id (pages db)) in
         Inr (db\<lparr>pages := pages db @
                    [\<lparr>page_id = i, page_title = title, page_slug = slug,
                      page_audience = audience, page_status = status,
                      page_created_at = t, page_updated_at = t\<rparr>],
                 pages_seq := i\<rparr>)))"

text \<open>\<^verbatim>\<open>DELETE FROM pages WHERE id=?\<close>. The blocks table declares
  \<^verbatim>\<open>FOREIGN KEY(page_id) REFERENCES pages(id) ON DELETE CASCADE\<close>; the engine acts on it
  when the connection enforces foreign keys.\<close>

definition delete_page :: "database \<Rightarrow> nat \<Rightarrow> database" where
  "delete_page db i =
     (let db' = db\<lparr>pages := filter (\<lambda>p. page_id p \<noteq> i) (pages db)\<rparr> in
      if foreign_keys db \<and> i \<in> set (map page_id (pages db))
      then db'\<lparr>blocks := filter (\<lambda>b. block_page_id b \<noteq> i) (blocks db)\<rparr>
      else db')"

subsection \<open>Statements on \<^verbatim>\<open>blocks\<close>\<close>

definition select_block_by_id :: "database \<Rightarrow> nat \<Rightarrow> block_row option" where
  "select_block_by_id db i = find (\<lambda>b. block_id b = i) (blocks db)"

definition page_blocks :: "database \<Rightarrow> nat \<Rightarrow> block_row list" where
  "page_blocks db p = filter (\<lambda>b. block_page_id b = p) (blocks db)"

text \<open>\<^verbatim>\<open>SELECT * FROM blocks WHERE page_id=? ORDER BY position ASC\<close>. Rows of equal position
  come in table order here; SQL leaves their order open.\<close>

definition select_blocks_by_page :: "database \<Rightarrow> nat \<Rightarrow> block_row list" where
  "select_blocks_by_page db p = sort_key block_position (page_blocks db p)"

text \<open>\<^verbatim>\<open>SELECT COUNT(*) as c FROM blocks WHERE page_id=?\<close>\<close>

definition count_blocks :: "database \<Rightarrow> nat \<Rightarrow> nat" where
  "count_blocks db p = length (page_blocks db p)"

definition block_types :: "string list" where
  "block_types = [''text'', ''image'', ''video'', ''callout'', ''quiz'']"

text \<open>\<^verbatim>\<open>INSERT INTO blocks (page_id, type, data_json, position, created_at, updated_at)\<close>
  under \<^verbatim>\<open>type TEXT NOT NULL CHECK(type IN (...))\<close> and, when enforced, the foreign key.\<close>

definition insert_block ::
  "database \<Rightarrow> nat \<Rightarrow> string option \<Rightarrow> string \<Rightarrow> int \<Rightarrow> timestamp \<Rightarrow> sqlite_error + database" where
  "insert_block db p ty data pos t =
     (case ty of
        None \<Rightarrow> Inl SQLITE_CONSTRAINT
      | Some ty' \<Rightarrow>
          if ty' \<notin> set block_types
             \<or> (foreign_keys db \<and> p \<notin> set (map page_id (pages db)))
          then Inl SQLITE_CONSTRAINT
          else
            (let i = next_rowid (blocks_seq db) (map block_id (blocks db)) in
             Inr (db\<lparr>blocks := blocks db @
                        [\<lparr>block_id = i, block_page_id = p, block_type = ty',
                          block_data_json = data, block_position = pos,
                          block_created_at = t, block_updated_at = t\<rparr>],
                     blocks_seq := i\<rparr>)))"

text \<open>\<^verbatim>\<open>UPDATE blocks SET data_json=?, updated_at=? WHERE id=?\<close>\<close>

definition update_block_data :: "database \<Rightarrow> nat \<Rightarrow> string \<Rightarrow> timestamp \<Rightarrow> database" where
  "update_block_data db i data t =
     db\<lparr>blocks := map (\<lambda>b. if block_id b = i
                            then b\<lparr>block_data_json := data, block_updated_at := t\<rparr>
                            else b) (blocks db)\<rparr>"

text \<open>\<^verbatim>\<open>UPDATE blocks SET position=?, updated_at=? WHERE id=?\<close>\<close>

definition update_block_position :: "database \<Rightarrow> nat \<Rightarrow> int \<Rightarrow> timestamp \<Rightarrow> database" where
  "update_block_position db i pos t =
     db\<lparr>blocks := map (\<lambda>b. if block_id b = i
                            then b\<lparr>block_position := pos, block_updated_at := t\<rparr>
                            else b) (blocks db)\<rparr>"

text \<open>\<^verbatim>\<open>DELETE FROM blocks WHERE id=?\<close>\<close>

definition delete_block :: "database \<Rightarrow> nat \<Rightarrow> database" where
  "delete_block db i = db\<lparr>blocks := filter (\<lambda>b. block_id b \<noteq> i) (blocks db)\<rparr>"

section \<open>The server\<close>

text \<open>
  The libraries the handlers call are parameters: \<^verbatim>\<open>slugify\<close> with the options of
  \<^verbatim>\<open>safeSlug\<close>, and \<^verbatim>\<open>bcrypt.hash\<close> and \<^verbatim>\<open>bcrypt.compare\<close>, whose promise may reject
  (\<open>None\<close>).
\<close>

record env =
  slugify :: "string \<Rightarrow> string"
  bcrypt_hash :: "string \<Rightarrow> string option"
  bcrypt_compare :: "string option \<Rightarrow> string \<Rightarrow> bool option"

definition safeSlug :: "env \<Rightarrow> string \<Rightarrow> string" where
  "safeSlug E input = slugify E input"

record session_user =
  su_id :: nat
  su_username :: string
  su_role :: string

text \<open>The values a handler passes to a view.\<close>

datatype local_val =
    LNull
  | LUndefined
  | LStr string
  | LUser session_user
  | LPage page_row
  | LBlock block_row
  | LBlocks "(block_row \<times> json) list"
  | LJson json
  | LUsers "(nat \<times> string \<times> string \<times> timestamp) list"

text \<open>
  What a request ends in: \<^verbatim>\<open>res.redirect\<close>, \<^verbatim>\<open>res.status(c).send\<close>, \<^verbatim>\<open>res.render\<close> with its
  status, or an exception that leaves the \<^verbatim>\<open>async\<close> handler and that nothing catches.
\<close>

datatype response =
    Redirect string
  | Send nat string
  | Render nat string "(string \<times> local_val) list"
  | Unhandled

type_synonym form = "string \<rightharpoonup> string"

definition requireAuth ::
  "session_user option \<Rightarrow> 'a \<Rightarrow> (session_user \<Rightarrow> response \<times> 'a) \<Rightarrow> response \<times> 'a" where
  "requireAuth sess st next =
     (case sess of
        None \<Rightarrow> (Redirect ''/admin/login'', st)
      | Some u \<Rightarrow> next u)"

definition requireAdmin ::
  "session_user option \<Rightarrow> 'a \<Rightarrow> (session_user \<Rightarrow> response \<times> 'a) \<Rightarrow> response \<times> 'a" where
  "requireAdmin sess st next =
     (case sess of
        None \<Rightarrow> (Redirect ''/admin/login'', st)
      | Some u \<Rightarrow>
          if su_role u \<noteq> ''admin'' then (Send 403 ''Forbidden: admin only'', st)
          else next u)"

definition user_or_null :: "session_user option \<Rightarrow> local_val" where
  "user_or_null sess = (case sess of None \<Rightarrow> LNull | Some u \<Rightarrow> LUser u)"

definition page_or_undefined :: "page_row option \<Rightarrow> local_val" where
  "page_or_undefined p = (case p of None \<Rightarrow> LUndefined | Some x \<Rightarrow> LPage x)"

text \<open>\<^verbatim>\<open>blocks.map(b => ({ ...b, data: parseJsonSafe(b.data_json, {}) }))\<close>\<close>

definition renderBlocks :: "block_row list \<Rightarrow> (block_row \<times> json) list" where
  "renderBlocks bs = map (\<lambda>b. (b, parseJsonSafe (block_data_json b) (JObj []))) bs"

definition blocks_url :: "nat \<Rightarrow> string" where
  "blocks_url p = ''/admin/pages/'' @ show_nat p @ ''/blocks''"

subsection \<open>Payloads\<close>

text \<open>The object literals of the add and edit handlers, one per block type.\<close>

definition text_data :: "string \<Rightarrow> string \<Rightarrow> json" where
  "text_data heading body = JObj [(''heading'', JStr heading), (''body'', JStr body)]"

definition image_data :: "string \<Rightarrow> string \<Rightarrow> string \<Rightarrow> json" where
  "image_data heading imageUrl caption =
     JObj [(''heading'', JStr heading), (''imageUrl'', JStr imageUrl), (''caption'', JStr caption)]"

definition video_data :: "string \<Rightarrow> string \<Rightarrow> string \<Rightarrow> string \<Rightarrow> string \<Rightarrow> json" where
  "video_data heading mode youtubeUrl mp4Url caption =
     JObj [(''heading'', JStr heading), (''mode'', JStr mode), (''youtubeUrl'', JStr youtubeUrl),
           (''mp4Url'', JStr mp4Url), (''caption'', JStr caption)]"

definition callout_data :: "string \<Rightarrow> string \<Rightarrow> json" where
  "callout_data kind body = JObj [(''kind'', JStr kind), (''body'', JStr body)]"

record question =
  q_text :: string
  q_options :: "string list"
  q_answer :: nat

definition question_data :: "question \<Rightarrow> json" where
  "question_data q =
     JObj [(''q'', JStr (q_text q)), (''options'', JArr (map JStr (q_options q))),
           (''answer'', JNum (int (q_answer q)))]"

definition quiz_data :: "string \<Rightarrow> question list \<Rightarrow> json" where
  "quiz_data title qs = JObj [(''title'', JStr title), (''questions'', JArr (map question_data qs))]"

text \<open>The seed content of a new block (\<^verbatim>\<open>let data = {}\<close> and the five \<^verbatim>\<open>if (type === ...)\<close>).\<close>

definition default_data :: "string option \<Rightarrow> json" where
  "default_data ty =
     (if ty = Some ''text'' then text_data [] []
      else if ty = Some ''image'' then image_data [] [] []
      else if ty = Some ''video'' then video_data [] ''youtube'' [] [] []
      else if ty = Some ''callout'' then callout_data ''Key idea'' []
      else if ty = Some ''quiz'' then
        quiz_data ''Quick Quiz''
          [\<lparr>q_text = ''Sample question 1?'', q_options = [''A'', ''B'', ''C'', ''D''], q_answer = 0\<rparr>]
      else JObj [])"

text \<open>The payload the edit handler builds from the form, by block type; \<open>None\<close> is the
  early return of the quiz branch with the message for the editor.\<close>

definition edited_data :: "string \<Rightarrow> form \<Rightarrow> json option" where
  "edited_data ty body =
     (if ty = ''text'' then
        Some (text_data (js_or (body ''heading'') []) (js_or (body ''body'') []))
      else if ty = ''image'' then
        Some (image_data (js_or (body ''heading'') []) (js_or (body ''imageUrl'') [])
                (js_or (body ''caption'') []))
      else if ty = ''video'' then
        Some (video_data (js_or (body ''heading'') []) (js_or (body ''mode'') ''youtube'')
                (js_or (body ''youtubeUrl'') []) (js_or (body ''mp4Url'') [])
                (js_or (body ''caption'') []))
      else if ty = ''callout'' then
        Some (callout_data (js_or (body ''kind'') ''Key idea'') (js_or (body ''body'') []))
      else if ty = ''quiz'' then
        (let parsed = parseJsonSafe (js_to_string (body ''quiz_json'')) JNull in
         if js_falsy parsed \<or> \<not> Array_isArray (js_get parsed ''questions'') then None
         else Some parsed)
      else Some (JObj []))"

definition quiz_error :: string where
  "quiz_error = ''Invalid quiz JSON. Ensure it has { title, questions: [...] }.''"

subsection \<open>Public pages\<close>

text \<open>\<^verbatim>\<open>GET /p/:slug\<close>\<close>

definition get_p_slug :: "database \<Rightarrow> session_user option \<Rightarrow> string \<Rightarrow> response" where
  "get_p_slug db sess s =
     (case select_published_page db s of
        None \<Rightarrow> Render 404 ''public/notfound'' [(''user'', user_or_null sess)]
      | Some page \<Rightarrow>
          Render 200 ''public/page''
            [(''page'', LPage page),
             (''blocks'', LBlocks (renderBlocks (select_blocks_by_page db (page_id page)))),
             (''user'', user_or_null sess)])"

subsection \<open>Login\<close>

definition login_error :: response where
  "login_error = Render 200 ''admin/login'' [(''error'', LStr ''Invalid username or password'')]"

text \<open>\<^verbatim>\<open>POST /admin/login\<close>: the response and the session after it.\<close>

definition post_admin_login ::
  "env \<Rightarrow> database \<Rightarrow> session_user option \<Rightarrow> form \<Rightarrow> response \<times> session_user option" where
  "post_admin_login E db sess body =
     (let username = body ''username''; password = body ''password'' in
      case select_user_by_username db username of
        None \<Rightarrow> (login_error, sess)
      | Some user \<Rightarrow>
          (case bcrypt_compare E password (user_password_hash user) of
             None \<Rightarrow> (Unhandled, sess)
           | Some ok \<Rightarrow>
               if \<not> ok then (login_error, sess)
               else (Redirect ''/admin'',
                     Some \<lparr>su_id = user_id user, su_username = user_username user,
                           su_role = user_role user\<rparr>)))"

subsection \<open>Pages\<close>

definition page_form_error :: "session_user \<Rightarrow> string \<Rightarrow> response" where
  "page_form_error u msg =
     Render 200 ''admin/page_form'' [(''user'', LUser u), (''page'', LNull), (''error'', LStr msg)]"

text \<open>\<^verbatim>\<open>POST /admin/pages/new\<close>\<close>

definition post_admin_pages_new ::
  "env \<Rightarrow> database \<Rightarrow> session_user option \<Rightarrow> form \<Rightarrow> timestamp \<Rightarrow> response \<times> database" where
  "post_admin_pages_new E db sess body t =
     requireAuth sess db (\<lambda>u.
       let title = body ''title''; slug = body ''slug'';
           audience = body ''audience''; status = body ''status'';
           finalSlug = safeSlug E (js_or slug (js_or title []))
       in if falsy_field title \<or> finalSlug = []
          then (page_form_error u ''Title and slug are required.'', db)
          else
            (case insert_page db (js_to_string title) finalSlug (js_or audience ''general'')
                    (js_or status ''draft'') t of
               Inr db' \<Rightarrow> (Redirect ''/admin'', db')
             | Inl err \<Rightarrow> (page_form_error u ''Slug already exists. Choose another.'', db)))"

text \<open>\<^verbatim>\<open>POST /admin/pages/:id/delete\<close>\<close>

definition post_admin_pages_delete ::
  "database \<Rightarrow> session_user option \<Rightarrow> nat \<Rightarrow> response \<times> database" where
  "post_admin_pages_delete db sess i =
     requireAuth sess db (\<lambda>u.
       if su_role u \<noteq> ''admin'' then (Send 403 ''Only admin can delete pages.'', db)
       else (Redirect ''/admin'', delete_page db i))"

subsection \<open>Blocks\<close>

text \<open>\<^verbatim>\<open>GET /admin/pages/:id/blocks\<close>\<close>

definition get_admin_pages_blocks :: "database \<Rightarrow> session_user option \<Rightarrow> nat \<Rightarrow> response" where
  "get_admin_pages_blocks db sess i =
     fst (requireAuth sess () (\<lambda>u.
       case select_page_by_id db i of
         None \<Rightarrow> (Send 404 ''Page not found'', ())
       | Some page \<Rightarrow>
           (Render 200 ''admin/blocks''
              [(''user'', LUser u), (''page'', LPage page),
               (''blocks'', LBlocks (renderBlocks (select_blocks_by_page db (page_id page))))],
            ())))"

text \<open>\<^verbatim>\<open>POST /admin/pages/:id/blocks/add\<close>\<close>

definition post_admin_pages_blocks_add ::
  "database \<Rightarrow> session_user option \<Rightarrow> nat \<Rightarrow> form \<Rightarrow> timestamp \<Rightarrow> response \<times> database" where
  "post_admin_pages_blocks_add db sess i body t =
     requireAuth sess db (\<lambda>u.
       case select_page_by_id db i of
         None \<Rightarrow> (Send 404 ''Page not found'', db)
       | Some page \<Rightarrow>
           (let ty = body ''type'';
                pos = int (count_blocks db (page_id page)) + 1;
                data = default_data ty
            in case insert_block db (page_id page) ty (JSON_stringify data) pos t of
                 Inl err \<Rightarrow> (Unhandled, db)
               | Inr db' \<Rightarrow> (Redirect (blocks_url (page_id page)), db')))"

text \<open>\<^verbatim>\<open>GET /admin/blocks/:blockId/edit\<close>\<close>

definition get_admin_blocks_edit :: "database \<Rightarrow> session_user option \<Rightarrow> nat \<Rightarrow> response" where
  "get_admin_blocks_edit db sess i =
     fst (requireAuth sess () (\<lambda>u.
       case select_block_by_id db i of
         None \<Rightarrow> (Send 404 ''Block not found'', ())
       | Some block \<Rightarrow>
           (Render 200 ''admin/block_edit''
              [(''user'', LUser u),
               (''page'', page_or_undefined (select_page_by_id db (block_page_id block))),
               (''block'', LBlock block),
               (''data'', LJson (parseJsonSafe (block_data_json block) (JObj []))),
               (''error'', LNull)],
            ())))"

text \<open>\<^verbatim>\<open>POST /admin/blocks/:blockId/edit\<close>. The redirect reads \<^verbatim>\<open>page.id\<close> after the update
  has run; with no page row that is a \<^verbatim>\<open>TypeError\<close>.\<close>

definition post_admin_blocks_edit ::
  "database \<Rightarrow> session_user option \<Rightarrow> nat \<Rightarrow> form \<Rightarrow> timestamp \<Rightarrow> response \<times> database" where
  "post_admin_blocks_edit db sess i body t =
     requireAuth sess db (\<lambda>u.
       case select_block_by_id db i of
         None \<Rightarrow> (Send 404 ''Block not found'', db)
       | Some block \<Rightarrow>
           (let page = select_page_by_id db (block_page_id block) in
            case edited_data (block_type block) body of
              None \<Rightarrow>
                (Render 200 ''admin/block_edit''
                   [(''user'', LUser u), (''page'', page_or_undefined page),
                    (''block'', LBlock block),
                    (''data'', LJson (parseJsonSafe (block_data_json block) (JObj []))),
                    (''error'', LStr quiz_error)],
                 db)
            | Some data \<Rightarrow>
                (let db' = update_block_data db (block_id block) (JSON_stringify data) t in
                 case page of
                   None \<Rightarrow> (Unhandled, db')
                 | Some p \<Rightarrow> (Redirect (blocks_url (page_id p)), db'))))"

text \<open>The loop of the delete handler: row \<open>i\<close> of the listing gets position \<open>i + 1\<close>; \<open>ts k\<close>
  is what \<^verbatim>\<open>nowIso()\<close> returns in round \<open>k\<close>.\<close>

fun renumber :: "database \<Rightarrow> block_row list \<Rightarrow> nat \<Rightarrow> (nat \<Rightarrow> timestamp) \<Rightarrow> database" where
  "renumber db [] i ts = db"
| "renumber db (b # bs) i ts =
     renumber (update_block_position db (block_id b) (int i + 1) (ts i)) bs (Suc i) ts"

text \<open>\<^verbatim>\<open>POST /admin/blocks/:blockId/delete\<close>\<close>

definition post_admin_blocks_delete ::
  "database \<Rightarrow> session_user option \<Rightarrow> nat \<Rightarrow> (nat \<Rightarrow> timestamp) \<Rightarrow> response \<times> database" where
  "post_admin_blocks_delete db sess i ts =
     requireAuth sess db (\<lambda>u.
       case select_block_by_id db i of
         None \<Rightarrow> (Send 404 ''Block not found'', db)
       | Some block \<Rightarrow>
           (let pageId = block_page_id block;
                db1 = delete_block db (block_id block);
                listing = select_blocks_by_page db1 pageId
            in (Redirect (blocks_url pageId), renumber db1 listing 0 ts)))"

text \<open>\<^verbatim>\<open>Array.prototype.findIndex\<close>: the first index whose element passes, or \<open>-1\<close>.\<close>

fun findIndex :: "('a \<Rightarrow> bool) \<Rightarrow> 'a list \<Rightarrow> int" where
  "findIndex P [] = - 1"
| "findIndex P (x # xs) =
     (if P x then 0 else (let r = findIndex P xs in if r = - 1 then - 1 else r + 1))"

text \<open>\<^verbatim>\<open>POST /admin/blocks/:blockId/move\<close>; \<open>ts 0\<close> and \<open>ts 1\<close> are the two readings of the
  clock.\<close>

definition post_admin_blocks_move ::
  "database \<Rightarrow> session_user option \<Rightarrow> nat \<Rightarrow> form \<Rightarrow> (nat \<Rightarrow> timestamp) \<Rightarrow> response \<times> database" where
  "post_admin_blocks_move db sess i body ts =
     requireAuth sess db (\<lambda>u.
       let dir = body ''dir'' in
       case select_block_by_id db i of
         None \<Rightarrow> (Send 404 ''Block not found'', db)
       | Some block \<Rightarrow>
           (let pageId = block_page_id block;
                listing = select_blocks_by_page db pageId;
                idx = findIndex (\<lambda>b. block_id b = block_id block) listing
            in if idx = - 1 then (Redirect (blocks_url pageId), db)
               else
                 (let swapIdx0 = idx;
                      swapIdx1 = (if dir = Some ''up'' then idx - 1 else swapIdx0);
                      swapIdx = (if dir = Some ''down'' then idx + 1 else swapIdx1)
                  in if swapIdx < 0 \<or> int (length listing) \<le> swapIdx
                     then (Redirect (blocks_url pageId), db)
                     else
                       (let a = listing ! nat idx; b = listing ! nat swapIdx;
                            db1 = update_block_position db (block_id a) (block_position b) (ts 0);
                            db2 = update_block_position db1 (block_id b) (block_position a) (ts 1)
                        in (Redirect (blocks_url pageId), db2)))))"

subsection \<open>Users\<close>

definition users_error :: "database \<Rightarrow> session_user \<Rightarrow> string \<Rightarrow> response" where
  "users_error db u msg =
     Render 200 ''admin/users''
       [(''user'', LUser u), (''users'', LUsers (select_users_listing db)), (''error'', LStr msg)]"

text \<open>\<^verbatim>\<open>POST /admin/users/new\<close>; the hashing is inside the \<^verbatim>\<open>try\<close>.\<close>

definition post_admin_users_new ::
  "env \<Rightarrow> database \<Rightarrow> session_user option \<Rightarrow> form \<Rightarrow> timestamp \<Rightarrow> response \<times> database" where
  "post_admin_users_new E db sess body t =
     requireAdmin sess db (\<lambda>u.
       let username = body ''username''; password = body ''password''; role = body ''role'' in
       if falsy_field username \<or> falsy_field password
       then (users_error db u ''Username and password required.'', db)
       else
         (case bcrypt_hash E (js_to_string password) of
            None \<Rightarrow> (users_error db u ''Username already exists.'', db)
          | Some password_hash \<Rightarrow>
              (case insert_user db (js_to_string username) password_hash
                      (if role = Some ''admin'' then ''admin'' else ''editor'') t of
                 Inr db' \<Rightarrow> (Redirect ''/admin/users'', db')
               | Inl err \<Rightarrow> (users_error db u ''Username already exists.'', db))))"

text \<open>\<^verbatim>\<open>POST /admin/users/:id/delete\<close>; \<open>param\<close> is \<^verbatim>\<open>req.params.id\<close>.\<close>

definition post_admin_users_delete ::
  "database \<Rightarrow> session_user option \<Rightarrow> string \<Rightarrow> response \<times> database" where
  "post_admin_users_delete db sess param =
     requireAdmin sess db (\<lambda>u.
       if parseInt param = Some (int (su_id u)) then (Send 400 ''You cannot delete yourself.'', db)
       else (Redirect ''/admin/users'', delete_user db param))"

subsection \<open>Sequences of block requests\<close>

datatype block_op =
    AddBlock nat form timestamp
  | DeleteBlock nat "nat \<Rightarrow> timestamp"
  | MoveBlock nat form "nat \<Rightarrow> timestamp"

fun block_request :: "database \<Rightarrow> session_user option \<times> block_op \<Rightarrow> database" where
  "block_request db (sess, AddBlock p body t) = snd (post_admin_pages_blocks_add db sess p body t)"
| "block_request db (sess, DeleteBlock i ts) = snd (post_admin_blocks_delete db sess i ts)"
| "block_request db (sess, MoveBlock i body ts) = snd (post_admin_blocks_move db sess i body ts)"

definition block_requests :: "database \<Rightarrow> (session_user option \<times> block_op) list \<Rightarrow> database" where
  "block_requests db rs = foldl block_request db rs"

subsection \<open>The position invariant\<close>

definition positions :: "database \<Rightarrow> nat \<Rightarrow> int list" where
  "positions db p = map block_position (page_blocks db p)"

text \<open>The positions of a page are exactly \<open>1, ..., N\<close> for its \<open>N\<close> blocks, each once.\<close>

definition gapless :: "database \<Rightarrow> nat \<Rightarrow> bool" where
  "gapless db p \<longleftrightarrow>
     distinct (positions db p) \<and> set (positions db p) = {1 .. int (length (positions db p))}"

text \<open>The primary key of the blocks table.\<close>

definition blocks_key :: "database \<Rightarrow> bool" where
  "blocks_key db \<longleftrightarrow> distinct (map block_id (blocks db))"

subsection \<open>Auxiliary notions for the block proofs\<close>

text \<open>What the renumbering loop does to one row, and what the two updates of a move do
  to one row.\<close>

fun renumbered :: "block_row list \<Rightarrow> nat \<Rightarrow> (nat \<Rightarrow> timestamp) \<Rightarrow> block_row \<Rightarrow> block_row" where
  "renumbered [] i ts b = b"
| "renumbered (x # xs) i ts b =
     (if block_id b = block_id x
      then b\<lparr>block_position := int i + 1, block_updated_at := ts i\<rparr>
      else renumbered xs (Suc i) ts b)"

definition swapped :: "block_row \<Rightarrow> block_row \<Rightarrow> (nat \<Rightarrow> timestamp) \<Rightarrow> block_row \<Rightarrow> block_row" where
  "swapped a b ts x =
     (let x1 = (if block_id x = block_id a
                then x\<lparr>block_position := block_position b, block_updated_at := ts 0\<rparr> else x)
      in if block_id x1 = block_id b
         then x1\<lparr>block_position := block_position a, block_updated_at := ts 1\<rparr> else x1)"

text \<open>The invariant of the blocks table for a page: the primary key and the positions
  of the page.\<close>

definition blocks_inv :: "database \<Rightarrow> nat \<Rightarrow> bool" where
  "blocks_inv db p \<longleftrightarrow> blocks_key db \<and> gapless db p"

subsection \<open>Auxiliary notions for the codec proofs\<close>

fun wf_json :: "json \<Rightarrow> bool"
  and wf_elems :: "json list \<Rightarrow> bool"
  and wf_members :: "(string \<times> json) list \<Rightarrow> bool" where
  "wf_json JNull = True"
| "wf_json (JBool b) = True"
| "wf_json (JNum i) = True"
| "wf_json (JNumLex l) = False"
| "wf_json (JStr s) = True"
| "wf_json (JArr vs) = wf_elems vs"
| "wf_json (JObj kvs) = (distinct (map fst kvs) \<and> wf_members kvs)"
| "wf_elems [] = True"
| "wf_elems (v # vs) = (wf_json v \<and> wf_elems vs)"
| "wf_members [] = True"
| "wf_members ((k, v) # kvs) = (wf_json v \<and> wf_members kvs)"

fun need :: "json \<Rightarrow> nat"
  and need_elems :: "json list \<Rightarrow> nat"
  and need_members :: "(string \<times> json) list \<Rightarrow> nat" where
  "need (JArr vs) = Suc (need_elems vs)"
| "need (JObj kvs) = Suc (need_members kvs)"
| "need v = 1"
| "need_elems [] = 0"
| "need_elems [v] = Suc (need v)"
| "need_elems (v # w # vs) = Suc (max (need v) (need_elems (w # vs)))"
| "need_members [] = 0"
| "need_members [(k, v)] = Suc (need v)"
| "need_members ((k, v) # m # kvs) = Suc (max (need v) (need_members (m # kvs)))"

definition starts_value :: "string \<Rightarrow> bool" where
  "starts_value s \<longleftrightarrow> s \<noteq> [] \<and> \<not> is_ws (hd s) \<and> hd s \<noteq> CHR '']'' \<and> hd s \<noteq> CHR ''}''"

definition num_sep :: "string \<Rightarrow> bool" where
  "num_sep r \<longleftrightarrow> r = [] \<or> hd r = CHR '','' \<or> hd r = CHR '']'' \<or> hd r = CHR ''}''"

section \<open>Concrete states for the runs\<close>

text \<open>Stand-ins for the libraries in the concrete runs. The slug function is
  \<^verbatim>\<open>slugify(input, { lower: true, strict: true, trim: true })\<close> on ASCII letters, digits,
  spaces and hyphens: letters in lower case, a hyphen read as a space, the words joined
  by one hyphen. The hash tags the
  password. \<^verbatim>\<open>bcrypt.compare\<close> rejects when its first argument is not a string
  (\<^verbatim>\<open>Illegal arguments: undefined, string\<close>), which is the case when the form has no
  \<^verbatim>\<open>password\<close> field.\<close>

definition demo_slug_char :: "char \<Rightarrow> string" where
  "demo_slug_char c =
     (let n = (of_char c :: nat) in
      if 65 \<le> n \<and> n \<le> 90 then [char_of (n + 32)]
      else if (97 \<le> n \<and> n \<le> 122) \<or> (48 \<le> n \<and> n \<le> 57) then [c]
      else if c = CHR 0x20 \<or> c = CHR ''-'' then [CHR 0x20]
      else [])"

fun demo_words :: "string \<Rightarrow> string \<Rightarrow> string list" where
  "demo_words w [] = (if w = [] then [] else [rev w])"
| "demo_words w (c # cs) =
     (if c = CHR 0x20 then (if w = [] then demo_words [] cs else rev w # demo_words [] cs)
      else demo_words (c # w) cs)"

fun demo_join :: "string list \<Rightarrow> string" where
  "demo_join [] = []"
| "demo_join [w] = w"
| "demo_join (w # v # ws) = w @ ''-'' @ demo_join (v # ws)"

definition demo_slugify :: "string \<Rightarrow> string" where
  "demo_slugify s = demo_join (demo_words [] (concat (map demo_slug_char s)))"

definition demo_env :: env where
  "demo_env =
     \<lparr>slugify = demo_slugify,
      bcrypt_hash = (\<lambda>p. Some (''$2a$'' @ p)),
      bcrypt_compare = (\<lambda>p h. case p of None \<Rightarrow> None | Some s \<Rightarrow> Some (h = ''$2a$'' @ s))\<rparr>"

text \<open>The same with a hashing that fails.\<close>

definition failing_hash_env :: env where
  "failing_hash_env = demo_env\<lparr>bcrypt_hash := (\<lambda>p. None)\<rparr>"

text \<open>A session, two databases and some requests.\<close>

definition admin_session :: session_user where
  "admin_session = \<lparr>su_id = 1, su_username = ''admin'', su_role = ''admin''\<rparr>"

definition demo_users :: database where
  "demo_users =
     \<lparr>users =
        [\<lparr>user_id = 1, user_username = ''admin'', user_password_hash = ''$2a$admin123'',
          user_role = ''admin'', user_created_at = ''2024-01-01T00:00:00.000Z''\<rparr>,
         \<lparr>user_id = 2, user_username = ''eve'', user_password_hash = ''$2a$pw'',
          user_role = ''editor'', user_created_at = ''2024-01-02T00:00:00.000Z''\<rparr>],
      pages =
        [\<lparr>page_id = 1, page_title = ''Sensors 101'', page_slug = ''sensors-101'',
          page_audience = ''undergrad'', page_status = ''draft'',
          page_created_at = ''2024-01-03T00:00:00.000Z'',
          page_updated_at = ''2024-01-03T00:00:00.000Z''\<rparr>],
      blocks = [],
      users_seq = 2, pages_seq = 1, blocks_seq = 0, foreign_keys = False\<rparr>"

definition unknown_login :: form where
  "unknown_login = [''username'' \<mapsto> ''mallory'', ''password'' \<mapsto> ''admin123'']"

definition wrong_password_login :: form where
  "wrong_password_login = [''username'' \<mapsto> ''admin'', ''password'' \<mapsto> ''letmein'']"

text \<open>Two login forms without a \<^verbatim>\<open>password\<close> field, for a username that is not stored and
  for one that is.\<close>

definition unknown_no_password :: form where
  "unknown_no_password = [''username'' \<mapsto> ''mallory'']"

definition known_no_password :: form where
  "known_no_password = [''username'' \<mapsto> ''admin'']"

text \<open>Forms for creating a page and a user: a page whose title gives the slug of the
  stored page, a page with a new slug and an audience outside the allowed values, a page
  form with the stored slug and no title, a user with the stored name \<^verbatim>\<open>eve\<close>, a new user,
  and the stored name with no password.\<close>

definition duplicate_page_form :: form where
  "duplicate_page_form = [''title'' \<mapsto> ''Sensors 101'']"

definition bogus_audience_form :: form where
  "bogus_audience_form = [''title'' \<mapsto> ''Motors'', ''audience'' \<mapsto> ''bogus'']"

definition untitled_form :: form where
  "untitled_form = [''slug'' \<mapsto> ''sensors-101'']"

definition duplicate_user_form :: form where
  "duplicate_user_form = [''username'' \<mapsto> ''eve'', ''password'' \<mapsto> ''secret'']"

definition new_user_form :: form where
  "new_user_form = [''username'' \<mapsto> ''carol'', ''password'' \<mapsto> ''secret'']"

definition no_password_form :: form where
  "no_password_form = [''username'' \<mapsto> ''eve'']"

definition callout_body_form :: form where
  "callout_body_form = [''body'' \<mapsto> ''Note'']"

definition corrupt_block :: block_row where
  "corrupt_block =
     \<lparr>block_id = 1, block_page_id = 1, block_type = ''text'', block_data_json = ''{oops'',
      block_position = 1, block_created_at = ''t0'', block_updated_at = ''t0''\<rparr>"

definition corrupt_db :: database where
  "corrupt_db =
     \<lparr>users = [],
      pages = [\<lparr>page_id = 1, page_title = ''Sensors 101'', page_slug = ''sensors-101'',
                page_audience = ''undergrad'', page_status = ''published'',
                page_created_at = ''t0'', page_updated_at = ''t0''\<rparr>],
      blocks = [corrupt_block],
      users_seq = 0, pages_seq = 1, blocks_seq = 1, foreign_keys = False\<rparr>"

definition demo_block :: "nat \<Rightarrow> nat \<Rightarrow> string \<Rightarrow> int \<Rightarrow> block_row" where
  "demo_block i p ty pos =
     \<lparr>block_id = i, block_page_id = p, block_type = ty,
      block_data_json = JSON_stringify (default_data (Some ty)), block_position = pos,
      block_created_at = ''2024-03-01T00:00:00.000Z'',
      block_updated_at = ''2024-03-01T00:00:00.000Z''\<rparr>"

definition demo_page :: "nat \<Rightarrow> string \<Rightarrow> string \<Rightarrow> page_row" where
  "demo_page i title slug =
     \<lparr>page_id = i, page_title = title, page_slug = slug, page_audience = ''undergrad'',
      page_status = ''draft'', page_created_at = ''2024-03-01T00:00:00.000Z'',
      page_updated_at = ''2024-03-01T00:00:00.000Z''\<rparr>"

definition demo_blocks :: database where
  "demo_blocks =
     \<lparr>users = [],
      pages = [demo_page 1 ''Sensors 101'' ''sensors-101'', demo_page 2 ''Motors'' ''motors''],
      blocks = [demo_block 1 1 ''quiz'' 1, demo_block 2 1 ''text'' 2, demo_block 3 2 ''video'' 1,
                demo_block 4 1 ''image'' 3],
      users_seq = 0, pages_seq = 2, blocks_seq = 4, foreign_keys = False\<rparr>"

definition demo_clock :: "nat \<Rightarrow> timestamp" where
  "demo_clock k = ''2024-03-02T00:00:0'' @ show_nat (k mod 10) @ ''.000Z''"

definition demo_requests :: "(session_user option \<times> block_op) list" where
  "demo_requests =
     [(Some admin_session, AddBlock 1 [''type'' \<mapsto> ''callout''] ''2024-03-02T00:00:00.000Z''),
      (Some admin_session, MoveBlock 4 [''dir'' \<mapsto> ''up''] demo_clock),
      (Some admin_session, DeleteBlock 1 demo_clock),
      (None, DeleteBlock 2 demo_clock)]"

definition move_up_form :: form where
  "move_up_form = [''dir'' \<mapsto> ''up'']"

text \<open>A page with a callout and a quiz block; a quiz form whose \<^verbatim>\<open>questions\<close> is not a
  list; and the run that creates a page on a new database, adds a text block to it and
  deletes the page.\<close>

definition callout_db :: database where
  "callout_db =
     \<lparr>users = [],
      pages = [demo_page 1 ''Sensors 101'' ''sensors-101''],
      blocks = [demo_block 1 1 ''callout'' 1, demo_block 2 1 ''quiz'' 2],
      users_seq = 0, pages_seq = 1, blocks_seq = 2, foreign_keys = False\<rparr>"

definition bad_quiz_form :: form where
  "bad_quiz_form = [''quiz_json'' \<mapsto> ''{\"title\":\"Q\",\"questions\":{}}'']"

definition orphan_run :: database where
  "orphan_run =
     (let t = ''2024-04-01T00:00:00.000Z'';
          s1 = snd (post_admin_pages_new demo_env (initDb empty_file) (Some admin_session)
                      [''title'' \<mapsto> ''Sensors 101'', ''audience'' \<mapsto> ''undergrad''] t);
          s2 = snd (post_admin_pages_blocks_add s1 (Some admin_session) 1 [''type'' \<mapsto> ''text''] t)
      in snd (post_admin_pages_delete s2 (Some admin_session) 1))"

section \<open>The codec inverts itself\<close>

subsection \<open>Numbers\<close>

lemma digit_val_digit_char: "d < 10 \<Longrightarrow> digit_val (digit_char d) = d"
  by (simp add: digit_val_def digit_char_def)

lemma is_digit_digit_char: "d < 10 \<Longrightarrow> is_digit (digit_char d)"
  by (simp add: is_digit_def digit_char_def)

lemma nat_of_digits_snoc: "nat_of_digits (ds @ [c]) = 10 * nat_of_digits ds + digit_val c"
  by (simp add: nat_of_digits_def)

lemma nat_of_digits_show_nat: "nat_of_digits (show_nat n) = n"
proof (induction n rule: show_nat.induct)
  case (1 n)
  show ?case
  proof (cases "n < 10")
    case True
    then show ?thesis
      by (subst show_nat.simps) (simp add: nat_of_digits_def digit_val_digit_char)
  next
    case False
    with 1 show ?thesis
      by (subst show_nat.simps) (simp add: nat_of_digits_snoc digit_val_digit_char)
  qed
qed

lemma show_nat_digits: "list_all is_digit (show_nat n)"
proof (induction n rule: show_nat.induct)
  case (1 n)
  show ?case
  proof (cases "n < 10")
    case True
    then show ?thesis
      by (subst show_nat.simps) (simp add: is_digit_digit_char)
  next
    case False
    with 1 show ?thesis
      by (subst show_nat.simps) (simp add: is_digit_digit_char)
  qed
qed

lemma show_nat_nonempty: "show_nat n \<noteq> []"
  by (subst show_nat.simps) simp

lemma show_nat_hd: "hd (show_nat n) = CHR ''0'' \<Longrightarrow> n < 10"
proof (induction n rule: show_nat.induct)
  case (1 n)
  show ?case
  proof (rule ccontr)
    assume "\<not> n < 10"
    then have big: "10 \<le> n" by simp
    then have eq: "show_nat n = show_nat (n div 10) @ [digit_char (n mod 10)]"
      by (subst show_nat.simps) simp
    have "hd (show_nat (n div 10)) = CHR ''0''"
      using "1.prems" eq show_nat_nonempty [of "n div 10"] by simp
    with 1 big have "n div 10 < 10" by simp
    then have "show_nat (n div 10) = [digit_char (n div 10)]"
      by (subst show_nat.simps) simp
    with \<open>hd (show_nat (n div 10)) = CHR ''0''\<close> have "digit_char (n div 10) = CHR ''0''" by simp
    then have "digit_val (digit_char (n div 10)) = 0" by (simp add: digit_val_def)
    with \<open>n div 10 < 10\<close> have "n div 10 = 0" by (simp add: digit_val_digit_char)
    with big show False by simp
  qed
qed

lemma takeWhile_digits_sep:
  assumes "list_all is_digit ds" and "r = [] \<or> \<not> is_digit (hd r)"
  shows "takeWhile is_digit (ds @ r) = ds" and "dropWhile is_digit (ds @ r) = r"
proof -
  from assms(2) have t: "takeWhile is_digit r = []" and d: "dropWhile is_digit r = r"
    by (cases r; auto)+
  from assms(1) have all: "\<forall>x\<in>set ds. is_digit x" by (simp add: list_all_iff)
  show "takeWhile is_digit (ds @ r) = ds" using all t by (simp add: takeWhile_append)
  show "dropWhile is_digit (ds @ r) = r" using all d by (simp add: dropWhile_append)
qed

lemma num_sep_not_digit: "num_sep r \<Longrightarrow> r = [] \<or> \<not> is_digit (hd r)"
  by (auto simp: num_sep_def is_digit_def)

lemma parse_frac_sep: "num_sep r \<Longrightarrow> parse_frac r = Some ([], r)"
  by (cases r) (auto simp: num_sep_def parse_frac_def)

lemma parse_exp_sep: "num_sep r \<Longrightarrow> parse_exp r = Some ([], r)"
  by (cases r) (auto simp: num_sep_def parse_exp_def)

lemma show_nat_no_minus: "hd (show_nat n) \<noteq> CHR ''-''"
proof -
  have "is_digit (hd (show_nat n))"
    using show_nat_digits [of n] show_nat_nonempty [of n]
    by (cases "show_nat n") simp_all
  then show ?thesis by (auto simp: is_digit_def)
qed

lemma show_nat_leading: "\<not> (1 < length (show_nat n) \<and> hd (show_nat n) = CHR ''0'')"
proof
  assume a: "1 < length (show_nat n) \<and> hd (show_nat n) = CHR ''0''"
  then have "n < 10" by (simp add: show_nat_hd)
  then have "show_nat n = [digit_char n]" by (subst show_nat.simps) simp
  with a show False by simp
qed

lemma parse_number_show_nat:
  assumes "num_sep r"
  shows "parse_number (show_nat n @ r) = Some (JNum (int n), r)"
proof -
  obtain c cs where sn: "show_nat n = c # cs"
    using show_nat_nonempty [of n] by (cases "show_nat n") auto
  have nm: "c \<noteq> CHR ''-''" using show_nat_no_minus [of n] sn by simp
  have tw: "takeWhile is_digit (show_nat n @ r) = show_nat n"
    and dw: "dropWhile is_digit (show_nat n @ r) = r"
    using takeWhile_digits_sep [OF show_nat_digits num_sep_not_digit [OF assms]] by auto
  have neg: "(case show_nat n @ r of [] \<Rightarrow> False | c # _ \<Rightarrow> c = CHR ''-'') = False"
    using sn nm by simp
  show ?thesis
    unfolding parse_number_def neg Let_def
    using show_nat_leading [of n] show_nat_nonempty [of n]
    by (simp add: tw dw parse_frac_sep [OF assms] parse_exp_sep [OF assms] nat_of_digits_show_nat)
qed

lemma parse_number_show_int:
  assumes "num_sep r"
  shows "parse_number (show_int i @ r) = Some (JNum i, r)"
proof (cases "i < 0")
  case False
  then show ?thesis
    using parse_number_show_nat [OF assms, of "nat i"] by (simp add: show_int_def)
next
  case True
  have tw: "takeWhile is_digit (show_nat (nat (- i)) @ r) = show_nat (nat (- i))"
    and dw: "dropWhile is_digit (show_nat (nat (- i)) @ r) = r"
    using takeWhile_digits_sep [OF show_nat_digits num_sep_not_digit [OF assms]] by auto
  show ?thesis
    unfolding parse_number_def show_int_def Let_def
    using True show_nat_leading [of "nat (- i)"] show_nat_nonempty [of "nat (- i)"]
    by (simp add: tw dw parse_frac_sep [OF assms] parse_exp_sep [OF assms] nat_of_digits_show_nat)
qed

subsection \<open>Strings\<close>

lemma hex_val_hex_char: "d < 16 \<Longrightarrow> hex_val (hex_char d) = Some d"
  by (auto simp: hex_val_def hex_char_def Let_def)

lemma hex4_low: "n < 32 \<Longrightarrow> hex4 CHR ''0'' CHR ''0'' (hex_char (n div 16)) (hex_char (n mod 16)) = Some n"
proof -
  assume n: "n < 32"
  then have a: "n div 16 < 16" by simp
  have b: "n mod 16 < 16" by simp
  have z: "hex_val CHR ''0'' = Some 0" by (simp add: hex_val_def)
  show ?thesis
    unfolding hex4_def by (simp add: z hex_val_hex_char [OF a] hex_val_hex_char [OF b])
qed

lemma parse_chars_quote_char:
  "parse_chars (quote_char c @ rest) = cons_result c (parse_chars rest)"
proof -
  consider (special) "c \<in> {CHR 0x22, CHR 0x5C, CHR 0x08, CHR 0x0C, CHR 0x0A, CHR 0x0D, CHR 0x09}"
    | (ctrl) "c \<notin> {CHR 0x22, CHR 0x5C, CHR 0x08, CHR 0x0C, CHR 0x0A, CHR 0x0D, CHR 0x09}" "(of_char c :: nat) < 32"
    | (plain) "c \<notin> {CHR 0x22, CHR 0x5C, CHR 0x08, CHR 0x0C, CHR 0x0A, CHR 0x0D, CHR 0x09}" "\<not> (of_char c :: nat) < 32"
    by blast
  then show ?thesis
  proof cases
    case special
    then show ?thesis
      by (auto simp: quote_char_def unescape_def)
  next
    case ctrl
    then show ?thesis
      by (simp add: quote_char_def hex4_low)
  next
    case plain
    then show ?thesis
      by (simp add: quote_char_def)
  qed
qed

lemma parse_chars_quoted:
  "parse_chars (concat (map quote_char s) @ CHR 0x22 # r) = Some (s, r)"
  by (induction s) (simp_all add: parse_chars_quote_char cons_result_def)

subsection \<open>Values\<close>

lemma show_nat_starts: "starts_value (show_nat n @ r)"
proof -
  have "is_digit (hd (show_nat n))"
    using show_nat_digits [of n] show_nat_nonempty [of n]
    by (cases "show_nat n") simp_all
  then show ?thesis
    using show_nat_nonempty [of n]
    by (auto simp: starts_value_def is_digit_def is_ws_def)
qed

lemma stringify_starts: "wf_json v \<Longrightarrow> starts_value (json_stringify v @ r)"
proof (cases v)
  case (JNum i)
  then show ?thesis
    using show_nat_starts [of "nat i" r]
    by (auto simp: show_int_def starts_value_def is_ws_def)
qed (auto simp: starts_value_def is_ws_def quote_def)

lemma stringify_elems_starts: "wf_elems vs \<Longrightarrow> vs \<noteq> [] \<Longrightarrow> starts_value (stringify_elems vs @ r)"
proof (cases vs)
  case (Cons v ws)
  assume "wf_elems vs"
  with Cons have "wf_json v" by simp
  then show ?thesis
    using Cons stringify_starts [of v] by (cases ws) (simp_all)
qed simp

lemma skip_ws_starts: "starts_value s \<Longrightarrow> skip_ws s = s"
  by (cases s) (auto simp: starts_value_def skip_ws_def)

lemma skip_ws_sep [simp]:
  "skip_ws (CHR '','' # r) = CHR '','' # r"
  "skip_ws (CHR '']'' # r) = CHR '']'' # r"
  "skip_ws (CHR ''}'' # r) = CHR ''}'' # r"
  "skip_ws (CHR '':'' # r) = CHR '':'' # r"
  "skip_ws (CHR 0x22 # r) = CHR 0x22 # r"
  "skip_ws [] = []"
  by (simp_all add: skip_ws_def is_ws_def)

lemma update_fresh: "k \<notin> fst ` set acc \<Longrightarrow> AList.update k v acc = acc @ [(k, v)]"
  by (induction acc) auto

lemma foldl_update_distinct:
  "distinct (map fst (acc @ kvs)) \<Longrightarrow>
   foldl (\<lambda>acc (k, v). AList.update k v acc) acc kvs = acc @ kvs"
proof (induction kvs arbitrary: acc)
  case Nil
  then show ?case by simp
next
  case (Cons p kvs)
  obtain k v where p: "p = (k, v)" by (cases p)
  from Cons.prems p have fresh: "k \<notin> fst ` set acc" by auto
  from Cons.prems p have d: "distinct (map fst ((acc @ [(k, v)]) @ kvs))" by auto
  show ?case
    using Cons.IH [OF d] by (simp add: p update_fresh [OF fresh])
qed

lemma define_props_distinct: "distinct (map fst kvs) \<Longrightarrow> define_props kvs = kvs"
  using foldl_update_distinct [of "[]" kvs] by (simp add: define_props_def)

lemma parse_value_number:
  assumes "s = c # cs" and "is_digit c \<or> c = CHR ''-''"
  shows "parse_value (Suc m) s = parse_number s"
proof -
  from assms(2) have nws: "\<not> is_ws c"
    and ne: "c \<noteq> CHR 0x22" "c \<noteq> CHR ''[''" "c \<noteq> CHR ''{''" "c \<noteq> CHR ''t''" "c \<noteq> CHR ''f''" "c \<noteq> CHR ''n''"
    by (auto simp: is_digit_def is_ws_def)
  have "skip_ws s = c # cs" using assms(1) nws by (simp add: skip_ws_def)
  then show ?thesis using ne assms(1) by simp
qed

lemma show_int_first:
  "\<exists>c cs. show_int i @ r = c # cs \<and> (is_digit c \<or> c = CHR ''-'')"
proof (cases "i < 0")
  case True
  then show ?thesis by (simp add: show_int_def)
next
  case False
  obtain c cs where sn: "show_nat (nat i) = c # cs"
    using show_nat_nonempty [of "nat i"] by (cases "show_nat (nat i)") auto
  have "is_digit c" using show_nat_digits [of "nat i"] sn by simp
  with sn False show ?thesis by (simp add: show_int_def)
qed

lemma parse_value_JNum:
  assumes "num_sep r"
  shows "parse_value (Suc m) (show_int i @ r) = Some (JNum i, r)"
proof -
  obtain c cs where f: "show_int i @ r = c # cs" "is_digit c \<or> c = CHR ''-''"
    using show_int_first [of i r] by blast
  show ?thesis
    using parse_value_number [OF f] parse_number_show_int [OF assms] by simp
qed

lemma parse_value_JStr:
  "parse_value (Suc m) (quote s @ r) = Some (JStr s, r)"
  by (simp add: quote_def parse_chars_quoted)

lemma parse_value_lit:
  "parse_value (Suc m) (''null'' @ r) = Some (JNull, r)"
  "parse_value (Suc m) (''true'' @ r) = Some (JBool True, r)"
  "parse_value (Suc m) (''false'' @ r) = Some (JBool False, r)"
  by (simp_all add: skip_ws_def is_ws_def parse_literal_def)

lemma parse_value_arr:
  assumes "starts_value cs" and "hd cs \<noteq> CHR '']''"
  shows "parse_value (Suc m) (CHR ''['' # cs) =
         (case parse_elems m cs of None \<Rightarrow> None | Some (vs, r) \<Rightarrow> Some (JArr vs, r))"
proof -
  obtain d ds where cs: "cs = d # ds" using assms(1) by (cases cs) (auto simp: starts_value_def)
  have "skip_ws (CHR ''['' # cs) = CHR ''['' # cs" by (simp add: skip_ws_def is_ws_def)
  moreover have "skip_ws cs = d # ds" using skip_ws_starts [OF assms(1)] cs by simp
  ultimately show ?thesis using assms(2) cs by simp
qed

lemma parse_value_obj:
  assumes "starts_value cs" and "hd cs \<noteq> CHR ''}''"
  shows "parse_value (Suc m) (CHR ''{'' # cs) =
         (case parse_members m cs of None \<Rightarrow> None | Some (kvs, r) \<Rightarrow> Some (JObj (define_props kvs), r))"
proof -
  obtain d ds where cs: "cs = d # ds" using assms(1) by (cases cs) (auto simp: starts_value_def)
  have "skip_ws (CHR ''{'' # cs) = CHR ''{'' # cs" by (simp add: skip_ws_def is_ws_def)
  moreover have "skip_ws cs = d # ds" using skip_ws_starts [OF assms(1)] cs by simp
  ultimately show ?thesis using assms(2) cs by simp
qed

lemma parse_value_empty:
  "parse_value (Suc m) (CHR ''['' # CHR '']'' # r) = Some (JArr [], r)"
  "parse_value (Suc m) (CHR ''{'' # CHR ''}'' # r) = Some (JObj [], r)"
  by (simp_all add: skip_ws_def is_ws_def)

lemma parse_elems_step:
  assumes "parse_value m s = Some (v, d # ds)"
  shows "d = CHR '']'' \<Longrightarrow> parse_elems (Suc m) s = Some ([v], ds)"
    and "d = CHR '','' \<Longrightarrow> parse_elems (Suc m) s =
           (case parse_elems m ds of None \<Rightarrow> None | Some (vs, r') \<Rightarrow> Some (v # vs, r'))"
  using assms by simp_all

lemma parse_members_step:
  assumes "parse_value m s = Some (v, d # ds)"
  shows "d = CHR ''}'' \<Longrightarrow>
           parse_members (Suc m) (quote k @ CHR '':'' # s) = Some ([(k, v)], ds)"
    and "d = CHR '','' \<Longrightarrow> parse_members (Suc m) (quote k @ CHR '':'' # s) =
           (case parse_members m ds of None \<Rightarrow> None | Some (kvs, r') \<Rightarrow> Some ((k, v) # kvs, r'))"
  using assms by (simp_all add: quote_def parse_chars_quoted)

lemma stringify_members_starts:
  "kvs \<noteq> [] \<Longrightarrow> starts_value (stringify_members kvs @ r)"
proof (cases kvs)
  case (Cons p ps)
  obtain k v where "p = (k, v)" by (cases p)
  with Cons show ?thesis
    by (cases ps) (simp_all add: starts_value_def quote_def is_ws_def)
qed simp

lemma hd_starts: "starts_value s \<Longrightarrow> hd s \<noteq> CHR '']'' \<and> hd s \<noteq> CHR ''}''"
  by (simp add: starts_value_def)

lemma parse_roundtrip:
  "wf_json v \<Longrightarrow> need v \<le> n \<Longrightarrow> num_sep r \<Longrightarrow>
     parse_value n (json_stringify v @ r) = Some (v, r)"
  "wf_elems vs \<Longrightarrow> vs \<noteq> [] \<Longrightarrow> need_elems vs \<le> n \<Longrightarrow>
     parse_elems n (stringify_elems vs @ CHR '']'' # r) = Some (vs, r)"
  "wf_members kvs \<Longrightarrow> kvs \<noteq> [] \<Longrightarrow> need_members kvs \<le> n \<Longrightarrow>
     parse_members n (stringify_members kvs @ CHR ''}'' # r) = Some (kvs, r)"
proof (induction v and vs and kvs arbitrary: n r and n r and n r
       rule: json_stringify_stringify_elems_stringify_members.induct)
  case 1
  then obtain m where "n = Suc m" by (cases n) auto
  then show ?case by (simp add: parse_value_lit [simplified])
next
  case (2 b)
  then obtain m where "n = Suc m" by (cases n) auto
  then show ?case by (cases b) (simp_all add: parse_value_lit [simplified])
next
  case (3 i)
  then obtain m where "n = Suc m" by (cases n) auto
  with 3 show ?case by (simp add: parse_value_JNum del: parse_value.simps)
next
  case (4 l)
  then show ?case by simp
next
  case (5 s)
  then obtain m where "n = Suc m" by (cases n) auto
  then show ?case by (simp add: parse_value_JStr del: parse_value.simps)
next
  case (6 vs)
  then obtain m where n: "n = Suc m" by (cases n) auto
  show ?case
  proof (cases "vs = []")
    case True
    then show ?thesis using n by (simp add: parse_value_empty del: parse_value.simps)
  next
    case False
    from 6 have wf: "wf_elems vs" by simp
    from 6 n have nd: "need_elems vs \<le> m" by simp
    have st: "starts_value (stringify_elems vs @ CHR '']'' # r)"
      by (rule stringify_elems_starts [OF wf False])
    have "parse_elems m (stringify_elems vs @ CHR '']'' # r) = Some (vs, r)"
      by (rule "6.IH" [OF wf False nd])
    then show ?thesis
      using n parse_value_arr [OF st, of m] hd_starts [OF st]
      by (simp del: parse_value.simps)
  qed
next
  case (7 kvs)
  then obtain m where n: "n = Suc m" by (cases n) auto
  show ?case
  proof (cases "kvs = []")
    case True
    then show ?thesis using n by (simp add: parse_value_empty del: parse_value.simps)
  next
    case False
    from 7 have wf: "wf_members kvs" and dist: "distinct (map fst kvs)" by simp_all
    from 7 n have nd: "need_members kvs \<le> m" by simp
    have st: "starts_value (stringify_members kvs @ CHR ''}'' # r)"
      by (rule stringify_members_starts [OF False])
    have "parse_members m (stringify_members kvs @ CHR ''}'' # r) = Some (kvs, r)"
      by (rule "7.IH" [OF wf False nd])
    then show ?thesis
      using n parse_value_obj [OF st, of m] hd_starts [OF st]
      by (simp add: define_props_distinct [OF dist] del: parse_value.simps)
  qed
next
  case 8
  then show ?case by simp
next
  case (9 v)
  then obtain m where n: "n = Suc m" by (cases n) auto
  from 9 n have "parse_value m (json_stringify v @ CHR '']'' # r) = Some (v, CHR '']'' # r)"
    by (intro "9.IH") (simp_all add: num_sep_def)
  from parse_elems_step(1) [OF this] show ?case using n by simp
next
  case (10 v w vs)
  then obtain m where n: "n = Suc m" by (cases n) auto
  let ?rest = "stringify_elems (w # vs) @ CHR '']'' # r"
  from 10 n have "parse_value m (json_stringify v @ CHR '','' # ?rest) = Some (v, CHR '','' # ?rest)"
    by (intro "10.IH"(1)) (simp_all add: num_sep_def)
  from parse_elems_step(2) [OF this]
  have "parse_elems (Suc m) (json_stringify v @ CHR '','' # ?rest) =
        (case parse_elems m ?rest of None \<Rightarrow> None | Some (vs, r') \<Rightarrow> Some (v # vs, r'))"
    by simp
  moreover from 10 n have "parse_elems m ?rest = Some (w # vs, r)"
    by (intro "10.IH"(2)) simp_all
  ultimately show ?case using n by (simp del: parse_elems.simps)
next
  case 11
  then show ?case by simp
next
  case (12 k v)
  then obtain m where n: "n = Suc m" by (cases n) auto
  from 12 n have "parse_value m (json_stringify v @ CHR ''}'' # r) = Some (v, CHR ''}'' # r)"
    by (intro "12.IH") (simp_all add: num_sep_def)
  from parse_members_step(1) [OF this] show ?case using n by (simp del: parse_members.simps)
next
  case (13 k v p kvs)
  then obtain m where n: "n = Suc m" by (cases n) auto
  let ?rest = "stringify_members (p # kvs) @ CHR ''}'' # r"
  from 13 n have "parse_value m (json_stringify v @ CHR '','' # ?rest) = Some (v, CHR '','' # ?rest)"
    by (intro "13.IH"(1)) (simp_all add: num_sep_def)
  from parse_members_step(2) [OF this]
  have "parse_members (Suc m) (quote k @ CHR '':'' # json_stringify v @ CHR '','' # ?rest) =
        (case parse_members m ?rest of None \<Rightarrow> None | Some (kvs, r') \<Rightarrow> Some ((k, v) # kvs, r'))"
    by simp
  moreover from 13 n have "parse_members m ?rest = Some (p # kvs, r)"
    by (intro "13.IH"(2)) simp_all
  ultimately show ?case using n by (simp del: parse_members.simps)
qed

lemma show_int_nonempty: "show_int i \<noteq> []"
  by (simp add: show_int_def show_nat_nonempty)

lemma need_le_length:
  "wf_json v \<Longrightarrow> need v \<le> length (json_stringify v)"
  "wf_elems vs \<Longrightarrow> need_elems vs \<le> Suc (length (stringify_elems vs))"
  "wf_members kvs \<Longrightarrow> need_members kvs \<le> Suc (length (stringify_members kvs))"
proof (induction v and vs and kvs
       rule: json_stringify_stringify_elems_stringify_members.induct)
  case (3 i)
  then show ?case using show_int_nonempty [of i] by (cases "show_int i") simp_all
next
  case (5 s)
  then show ?case by (simp add: quote_def)
qed (auto simp: quote_def)

lemma JSON_parse_stringify: "wf_json v \<Longrightarrow> JSON_parse (JSON_stringify v) = Some v"
proof -
  assume wf: "wf_json v"
  have "need v \<le> Suc (length (json_stringify v))"
    using need_le_length(1) [OF wf] by simp
  from parse_roundtrip(1) [OF wf this, of "[]"]
  have "parse_value (Suc (length (json_stringify v))) (json_stringify v) = Some (v, [])"
    by (simp add: num_sep_def)
  then show ?thesis
    by (simp add: JSON_parse_def JSON_stringify_def del: parse_value.simps)
qed


subsection \<open>The bound of the parser\<close>

text \<open>
  A larger bound never changes a result, and a successful parse needs no more nested
  calls than the characters it consumes. So the bound \<open>Suc (length s)\<close> of \<open>JSON_parse\<close>
  never cuts a parse short: when the text parses under any bound, it parses under this
  one (\<open>JSON_parse_any_bound\<close>).
\<close>

lemma value_transfer:
  assumes "parse_value (Suc n) s = Some r"
    and "\<And>t x. parse_elems n t = Some x \<Longrightarrow> parse_elems m t = Some x"
    and "\<And>t x. parse_members n t = Some x \<Longrightarrow> parse_members m t = Some x"
  shows "parse_value (Suc m) s = Some r"
  using assms(1)
  by (auto split: option.split_asm list.split_asm if_split_asm
           simp: assms(2,3))

lemma elems_transfer:
  assumes "parse_elems (Suc n) s = Some r"
    and "\<And>t x. parse_value n t = Some x \<Longrightarrow> parse_value m t = Some x"
    and "\<And>t x. parse_elems n t = Some x \<Longrightarrow> parse_elems m t = Some x"
  shows "parse_elems (Suc m) s = Some r"
  using assms(1)
  by (auto split: option.split_asm list.split_asm if_split_asm
           simp: assms(2,3))

lemma members_transfer:
  assumes "parse_members (Suc n) s = Some r"
    and "\<And>t x. parse_value n t = Some x \<Longrightarrow> parse_value m t = Some x"
    and "\<And>t x. parse_members n t = Some x \<Longrightarrow> parse_members m t = Some x"
  shows "parse_members (Suc m) s = Some r"
  using assms(1)
  by (auto split: option.split_asm list.split_asm if_split_asm
           simp: assms(2,3))

lemma parse_mono_step:
  "(\<forall>s r. parse_value n s = Some r \<longrightarrow> parse_value (Suc n) s = Some r)
   \<and> (\<forall>s r. parse_elems n s = Some r \<longrightarrow> parse_elems (Suc n) s = Some r)
   \<and> (\<forall>s r. parse_members n s = Some r \<longrightarrow> parse_members (Suc n) s = Some r)"
proof (induction n)
  case 0
  show ?case by simp
next
  case (Suc n)
  then have v: "\<And>s r. parse_value n s = Some r \<Longrightarrow> parse_value (Suc n) s = Some r"
    and e: "\<And>s r. parse_elems n s = Some r \<Longrightarrow> parse_elems (Suc n) s = Some r"
    and m: "\<And>s r. parse_members n s = Some r \<Longrightarrow> parse_members (Suc n) s = Some r"
    by blast+
  have "parse_value (Suc (Suc n)) s = Some r" if "parse_value (Suc n) s = Some r" for s r
    by (rule value_transfer [OF that e m])
  moreover have "parse_elems (Suc (Suc n)) s = Some r" if "parse_elems (Suc n) s = Some r" for s r
    by (rule elems_transfer [OF that v e])
  moreover have "parse_members (Suc (Suc n)) s = Some r" if "parse_members (Suc n) s = Some r" for s r
    by (rule members_transfer [OF that v m])
  ultimately show ?case by blast
qed

lemma parse_mono_Suc:
  shows "parse_value n s = Some r \<Longrightarrow> parse_value (Suc n) s = Some r"
    and "parse_elems n s = Some r' \<Longrightarrow> parse_elems (Suc n) s = Some r'"
    and "parse_members n s = Some r'' \<Longrightarrow> parse_members (Suc n) s = Some r''"
  using parse_mono_step [of n] by blast+

lemma parse_mono_add:
  shows "parse_value n s = Some r \<Longrightarrow> parse_value (n + k) s = Some r"
    and "parse_elems n s = Some r' \<Longrightarrow> parse_elems (n + k) s = Some r'"
    and "parse_members n s = Some r'' \<Longrightarrow> parse_members (n + k) s = Some r''"
proof (induction k)
  case 0
  { case 1 then show ?case by simp }
  { case 2 then show ?case by simp }
  { case 3 then show ?case by simp }
next
  case (Suc k)
  { case 1 from parse_mono_Suc(1) [OF Suc(1) [OF 1]] show ?case by (simp only: add_Suc_right) }
  { case 2 from parse_mono_Suc(2) [OF Suc(2) [OF 2]] show ?case by (simp only: add_Suc_right) }
  { case 3 from parse_mono_Suc(3) [OF Suc(3) [OF 3]] show ?case by (simp only: add_Suc_right) }
qed

lemma parse_mono:
  assumes "n \<le> m"
  shows "parse_value n s = Some r \<Longrightarrow> parse_value m s = Some r"
    and "parse_elems n s = Some r' \<Longrightarrow> parse_elems m s = Some r'"
    and "parse_members n s = Some r'' \<Longrightarrow> parse_members m s = Some r''"
proof -
  from assms obtain k where m: "m = n + k" using le_Suc_ex by blast
  show "parse_value n s = Some r \<Longrightarrow> parse_value m s = Some r"
    unfolding m by (rule parse_mono_add)
  show "parse_elems n s = Some r' \<Longrightarrow> parse_elems m s = Some r'"
    unfolding m by (rule parse_mono_add)
  show "parse_members n s = Some r'' \<Longrightarrow> parse_members m s = Some r''"
    unfolding m by (rule parse_mono_add)
qed

lemma length_skip_ws: "length (skip_ws s) \<le> length s"
  by (simp add: skip_ws_def length_dropWhile_le)

lemma cons_result_Some:
  "cons_result c p = Some (x, r) \<Longrightarrow> \<exists>y. p = Some (y, r) \<and> x = c # y"
  by (cases p) (auto simp: cons_result_def)

lemma parse_chars_consumes: "parse_chars s = Some (x, r) \<Longrightarrow> length r < length s"
proof (induction s arbitrary: x r rule: length_induct)
  case (1 s)
  then have ih: "\<And>ys y q. parse_chars ys = Some (y, q) \<Longrightarrow> length ys < length s \<Longrightarrow> length q < length s"
    by (meson less_trans)
  show ?case
  proof (cases s)
    case Nil
    with "1.prems" show ?thesis by simp
  next
    case (Cons c cs)
    show ?thesis
    proof (cases "c = CHR 0x22")
      case True
      with "1.prems" Cons show ?thesis by simp
    next
      case nq: False
      show ?thesis
      proof (cases "c = CHR 0x5C")
        case False
        with "1.prems" Cons nq have "cons_result c (parse_chars cs) = Some (x, r)"
          by (simp split: if_split_asm)
        from cons_result_Some [OF this] obtain y where "parse_chars cs = Some (y, r)" by blast
        from ih [OF this] Cons show ?thesis by simp
      next
        case True
        show ?thesis
        proof (cases cs)
          case Nil
          with "1.prems" Cons True show ?thesis by simp
        next
          case e: (Cons e es)
          show ?thesis
          proof (cases "e = CHR ''u''")
            case False
            with "1.prems" Cons True e obtain z where "cons_result z (parse_chars es) = Some (x, r)"
              by (auto split: option.split_asm)
            from cons_result_Some [OF this] obtain y where "parse_chars es = Some (y, r)" by blast
            from ih [OF this] Cons e show ?thesis by simp
          next
            case u: True
            from "1.prems" Cons True e u obtain h1 h2 h3 h4 rest z where
              es: "es = h1 # h2 # h3 # h4 # rest" and "cons_result z (parse_chars rest) = Some (x, r)"
              by (auto split: list.split_asm option.split_asm)
            from cons_result_Some [OF this(2)] obtain y where "parse_chars rest = Some (y, r)" by blast
            from ih [OF this] Cons e es show ?thesis by simp
          qed
        qed
      qed
    qed
  qed
qed

lemma parse_frac_length: "parse_frac s = Some (f, r) \<Longrightarrow> length r \<le> length s"
proof (cases s)
  case Nil
  then show "parse_frac s = Some (f, r) \<Longrightarrow> length r \<le> length s"
    by (simp add: parse_frac_def)
next
  case (Cons c cs)
  assume a: "parse_frac s = Some (f, r)"
  show "length r \<le> length s"
  proof (cases "c = CHR ''.''")
    case True
    with a Cons have "r = dropWhile is_digit cs"
      by (simp add: parse_frac_def split: if_split_asm)
    then show ?thesis using length_dropWhile_le [of is_digit cs] Cons by simp
  next
    case False
    with a Cons show ?thesis by (simp add: parse_frac_def)
  qed
qed

lemma parse_exp_length: "parse_exp s = Some (f, r) \<Longrightarrow> length r \<le> length s"
proof (cases s)
  case Nil
  then show "parse_exp s = Some (f, r) \<Longrightarrow> length r \<le> length s"
    by (simp add: parse_exp_def)
next
  case (Cons c cs)
  assume a: "parse_exp s = Some (f, r)"
  show "length r \<le> length s"
  proof (cases "c = CHR ''e'' \<or> c = CHR ''E''")
    case True
    with a Cons obtain k where "r = dropWhile is_digit (drop k cs)"
      by (auto simp: parse_exp_def Let_def split: if_split_asm)
    then have "length r \<le> length (drop k cs)"
      using length_dropWhile_le [of is_digit "drop k cs"] by (simp only:)
    then show ?thesis using Cons by simp
  next
    case False
    with a Cons show ?thesis by (simp add: parse_exp_def)
  qed
qed

lemma parse_number_consumes: "parse_number s = Some (v, r) \<Longrightarrow> length r < length s"
proof -
  assume a: "parse_number s = Some (v, r)"
  define s1 where "s1 = (if (case s of [] \<Rightarrow> False | c # _ \<Rightarrow> c = CHR ''-'') then tl s else s)"
  define ds where "ds = takeWhile is_digit s1"
  define s2 where "s2 = dropWhile is_digit s1"
  from a have ne: "ds \<noteq> []"
    unfolding parse_number_def Let_def ds_def s1_def by (simp split: if_split_asm)
  with a have "(case parse_frac s2 of None \<Rightarrow> None
                | Some (fr, s3) \<Rightarrow>
                    (case parse_exp s3 of None \<Rightarrow> None
                     | Some (ex, s4) \<Rightarrow> Some (s4))) = Some r"
    unfolding parse_number_def Let_def ds_def s2_def s1_def
    by (simp split: if_split_asm option.split_asm prod.split_asm)
  then obtain fr s3 ex where f: "parse_frac s2 = Some (fr, s3)" and e: "parse_exp s3 = Some (ex, r)"
    by (auto split: option.split_asm)
  have "ds @ s2 = s1" unfolding ds_def s2_def by (rule takeWhile_dropWhile_id)
  then have "length ds + length s2 = length s1" by (metis length_append)
  with ne have "length s2 < length s1" by (cases ds) simp_all
  moreover have "length s1 \<le> length s" unfolding s1_def by (cases s) simp_all
  moreover note parse_frac_length [OF f] parse_exp_length [OF e]
  ultimately show ?thesis by linarith
qed

lemma parse_literal_consumes:
  "parse_literal w v s = Some (x, r) \<Longrightarrow> w \<noteq> [] \<Longrightarrow> length r < length s"
proof -
  assume a: "parse_literal w v s = Some (x, r)" and w: "w \<noteq> []"
  then have t: "take (length w) s = w" and r: "r = drop (length w) s"
    by (simp_all add: parse_literal_def split: if_split_asm)
  from t w have "s \<noteq> []" by auto
  with r w show ?thesis by simp
qed

lemma skip_ws_Cons_length: "skip_ws t = d # ds \<Longrightarrow> length ds < length t"
  using length_skip_ws [of t] by simp

text \<open>The shapes of a successful step: what was called, and that the same calls with
  another bound give the same result.\<close>

lemma value_cases:
  assumes "parse_value (Suc n) s = Some (v, r)"
  obtains (leaf) "\<And>m. parse_value (Suc m) s = Some (v, r)" "length r < length s"
  | (arr) cs vs where "length cs < length s" "parse_elems n cs = Some (vs, r)"
      "\<And>m. parse_elems m cs = Some (vs, r) \<Longrightarrow> parse_value (Suc m) s = Some (v, r)"
  | (obj) cs kvs where "length cs < length s" "parse_members n cs = Some (kvs, r)"
      "\<And>m. parse_members m cs = Some (kvs, r) \<Longrightarrow> parse_value (Suc m) s = Some (v, r)"
proof (cases "skip_ws s")
  case Nil
  with assms show ?thesis by simp
next
  case (Cons c cs)
  then have lcs: "length cs < length s" by (rule skip_ws_Cons_length)
  consider (str) "c = CHR 0x22" | (a) "c = CHR ''[''" | (ob) "c = CHR ''{''"
    | (other) "c \<noteq> CHR 0x22" "c \<noteq> CHR ''[''" "c \<noteq> CHR ''{''"
    by blast
  then show ?thesis
  proof cases
    case str
    with assms Cons obtain x where x: "parse_chars cs = Some (x, r)" "v = JStr x"
      by (auto split: option.split_asm)
    have "parse_value (Suc m) s = Some (v, r)" for m
      using Cons str x by simp
    moreover have "length r < length s"
      using parse_chars_consumes [OF x(1)] lcs by simp
    ultimately show ?thesis by (rule leaf)
  next
    case a
    show ?thesis
    proof (cases "skip_ws cs")
      case Nil
      with assms Cons a show ?thesis by simp
    next
      case inner: (Cons d ds)
      show ?thesis
      proof (cases "d = CHR '']''")
        case True
        with assms Cons a inner have r: "v = JArr []" "r = ds" by simp_all
        have "parse_value (Suc m) s = Some (v, r)" for m
          using Cons a inner True r by simp
        moreover have "length r < length s"
          using skip_ws_Cons_length [OF inner] lcs r by simp
        ultimately show ?thesis by (rule leaf)
      next
        case False
        with assms Cons a inner obtain vs where vs: "parse_elems n cs = Some (vs, r)" "v = JArr vs"
          by (auto split: option.split_asm)
        have "parse_value (Suc m) s = Some (v, r)" if "parse_elems m cs = Some (vs, r)" for m
          using Cons a inner False vs that by simp
        with lcs vs(1) show ?thesis by (rule arr)
      qed
    qed
  next
    case ob
    show ?thesis
    proof (cases "skip_ws cs")
      case Nil
      with assms Cons ob show ?thesis by simp
    next
      case inner: (Cons d ds)
      show ?thesis
      proof (cases "d = CHR ''}''")
        case True
        with assms Cons ob inner have r: "v = JObj []" "r = ds" by simp_all
        have "parse_value (Suc m) s = Some (v, r)" for m
          using Cons ob inner True r by simp
        moreover have "length r < length s"
          using skip_ws_Cons_length [OF inner] lcs r by simp
        ultimately show ?thesis by (rule leaf)
      next
        case False
        with assms Cons ob inner obtain kvs where
          kvs: "parse_members n cs = Some (kvs, r)" "v = JObj (define_props kvs)"
          by (auto split: option.split_asm)
        have "parse_value (Suc m) s = Some (v, r)" if "parse_members m cs = Some (kvs, r)" for m
          using Cons ob inner False kvs that by simp
        with lcs kvs(1) show ?thesis by (rule obj)
      qed
    qed
  next
    case other
    have eq: "parse_value (Suc m) s = parse_value (Suc n) s" for m
      using Cons other by simp
    from assms Cons other
    have pl: "(if c = CHR ''t'' then parse_literal ''true'' (JBool True) (c # cs)
               else if c = CHR ''f'' then parse_literal ''false'' (JBool False) (c # cs)
               else if c = CHR ''n'' then parse_literal ''null'' JNull (c # cs)
               else parse_number (c # cs)) = Some (v, r)"
      by simp
    have "length r < length (c # cs)"
    proof (cases "c = CHR ''t''")
      case True
      with pl have "parse_literal ''true'' (JBool True) (c # cs) = Some (v, r)" by simp
      then show ?thesis by (rule parse_literal_consumes) simp
    next
      case nt: False
      show ?thesis
      proof (cases "c = CHR ''f''")
        case True
        with pl have "parse_literal ''false'' (JBool False) (c # cs) = Some (v, r)" by simp
        then show ?thesis by (rule parse_literal_consumes) simp
      next
        case nf: False
        show ?thesis
        proof (cases "c = CHR ''n''")
          case True
          with pl have "parse_literal ''null'' JNull (c # cs) = Some (v, r)" by simp
          then show ?thesis by (rule parse_literal_consumes) simp
        next
          case False
          with pl nt nf have "parse_number (c # cs) = Some (v, r)" by simp
          then show ?thesis by (rule parse_number_consumes)
        qed
      qed
    qed
    then have "length r < length s" using length_skip_ws [of s] Cons by simp
    with eq assms show ?thesis by (intro leaf) simp_all
  qed
qed

lemma elems_cases:
  assumes "parse_elems (Suc n) s = Some (vs, r)"
  obtains (last) v r1 where "parse_value n s = Some (v, r1)" "length r < length r1"
      "\<And>m. parse_value m s = Some (v, r1) \<Longrightarrow> parse_elems (Suc m) s = Some (vs, r)"
  | (more) v r1 ds vs' where "parse_value n s = Some (v, r1)" "length ds < length r1"
      "parse_elems n ds = Some (vs', r)"
      "\<And>m. parse_value m s = Some (v, r1) \<Longrightarrow> parse_elems m ds = Some (vs', r)
            \<Longrightarrow> parse_elems (Suc m) s = Some (vs, r)"
proof -
  from assms obtain v r1 where pv: "parse_value n s = Some (v, r1)"
    by (auto split: option.split_asm)
  with assms obtain d ds where sk: "skip_ws r1 = d # ds"
    by (cases "skip_ws r1") auto
  have l: "length ds < length r1" by (rule skip_ws_Cons_length [OF sk])
  show ?thesis
  proof (cases "d = CHR '',''")
    case True
    with assms pv sk obtain vs' where e: "parse_elems n ds = Some (vs', r)" "vs = v # vs'"
      by (auto split: option.split_asm)
    have "parse_elems (Suc m) s = Some (vs, r)"
      if "parse_value m s = Some (v, r1)" "parse_elems m ds = Some (vs', r)" for m
      using that sk True e(2) by simp
    with pv l e(1) show ?thesis by (rule more)
  next
    case False
    with assms pv sk have r: "d = CHR '']''" "vs = [v]" "r = ds"
      by (auto split: if_split_asm)
    have t: "parse_elems (Suc m) s = Some (vs, r)" if "parse_value m s = Some (v, r1)" for m
      using that sk r by simp
    from l r(3) have "length r < length r1" by simp
    with pv show ?thesis using t by (rule last)
  qed
qed

lemma members_cases:
  assumes "parse_members (Suc n) s = Some (kvs, r)"
  obtains (last) t v r2 where "length t < length s" "parse_value n t = Some (v, r2)"
      "length r < length r2"
      "\<And>m. parse_value m t = Some (v, r2) \<Longrightarrow> parse_members (Suc m) s = Some (kvs, r)"
  | (more) t v r2 ds kvs' where "length t < length s" "parse_value n t = Some (v, r2)"
      "length ds < length r2" "parse_members n ds = Some (kvs', r)"
      "\<And>m. parse_value m t = Some (v, r2) \<Longrightarrow> parse_members m ds = Some (kvs', r)
            \<Longrightarrow> parse_members (Suc m) s = Some (kvs, r)"
proof -
  from assms obtain q cs where s: "skip_ws s = q # cs"
    by (cases "skip_ws s") auto
  with assms have q: "q = CHR 0x22" by (auto split: if_split_asm)
  from assms s q obtain k r0 where k: "parse_chars cs = Some (k, r0)"
    by (auto split: option.split_asm)
  from assms s q k obtain col r1 where c: "skip_ws r0 = col # r1"
    by (cases "skip_ws r0") auto
  with assms s q k have col: "col = CHR '':''" by (auto split: if_split_asm)
  from assms s q k c col obtain v r2 where pv: "parse_value n r1 = Some (v, r2)"
    by (auto split: option.split_asm)
  from assms s q k c col pv obtain d ds where sk: "skip_ws r2 = d # ds"
    by (cases "skip_ws r2") auto
  have "length r1 < length r0" by (rule skip_ws_Cons_length [OF c])
  moreover have "length r0 < length cs" by (rule parse_chars_consumes [OF k])
  moreover have "length cs < length s" by (rule skip_ws_Cons_length [OF s])
  ultimately have lt: "length r1 < length s" by linarith
  have l: "length ds < length r2" by (rule skip_ws_Cons_length [OF sk])
  show ?thesis
  proof (cases "d = CHR '',''")
    case True
    with assms s q k c col pv sk obtain kvs' where
      e: "parse_members n ds = Some (kvs', r)" "kvs = (k, v) # kvs'"
      by (auto split: option.split_asm)
    have "parse_members (Suc m) s = Some (kvs, r)"
      if "parse_value m r1 = Some (v, r2)" "parse_members m ds = Some (kvs', r)" for m
      using that s q k c col sk True e(2) by simp
    with lt pv l e(1) show ?thesis by (rule more)
  next
    case False
    with assms s q k c col pv sk have r: "d = CHR ''}''" "kvs = [(k, v)]" "r = ds"
      by (auto split: if_split_asm)
    have t: "parse_members (Suc m) s = Some (kvs, r)" if "parse_value m r1 = Some (v, r2)" for m
      using that s q k c col sk r by simp
    from l r(3) have "length r < length r2" by simp
    with lt pv show ?thesis using t by (rule last)
  qed
qed

lemma parse_consumes_all:
  "(\<forall>s v r. parse_value n s = Some (v, r) \<longrightarrow> length r < length s)
   \<and> (\<forall>s vs r. parse_elems n s = Some (vs, r) \<longrightarrow> length r < length s)
   \<and> (\<forall>s kvs r. parse_members n s = Some (kvs, r) \<longrightarrow> length r < length s)"
proof (induction n)
  case 0
  show ?case by simp
next
  case (Suc n)
  then have v: "\<And>s v r. parse_value n s = Some (v, r) \<Longrightarrow> length r < length s"
    and e: "\<And>s vs r. parse_elems n s = Some (vs, r) \<Longrightarrow> length r < length s"
    and m: "\<And>s kvs r. parse_members n s = Some (kvs, r) \<Longrightarrow> length r < length s"
    by blast+
  have "length r < length s" if a: "parse_value (Suc n) s = Some (x, r)" for s x r
    using a
  proof (cases rule: value_cases)
    case leaf
    then show ?thesis by simp
  next
    case (arr cs vs)
    from e [OF arr(2)] arr(1) show ?thesis by simp
  next
    case (obj cs kvs)
    from m [OF obj(2)] obj(1) show ?thesis by simp
  qed
  moreover have "length r < length s" if a: "parse_elems (Suc n) s = Some (x, r)" for s x r
    using a
  proof (cases rule: elems_cases)
    case (last y r1)
    from v [OF last(1)] last(2) show ?thesis by simp
  next
    case (more y r1 ds vs')
    from v [OF more(1)] e [OF more(3)] more(2) show ?thesis by simp
  qed
  moreover have "length r < length s" if a: "parse_members (Suc n) s = Some (x, r)" for s x r
    using a
  proof (cases rule: members_cases)
    case (last t y r2)
    from v [OF last(2)] last(1,3) show ?thesis by simp
  next
    case (more t y r2 ds kvs')
    from v [OF more(2)] m [OF more(4)] more(1,3) show ?thesis by simp
  qed
  ultimately show ?case by blast
qed

lemma parse_consumes:
  shows "parse_value n s = Some (v, r) \<Longrightarrow> length r < length s"
    and "parse_elems n s = Some (vs, r) \<Longrightarrow> length r < length s"
    and "parse_members n s = Some (kvs, r) \<Longrightarrow> length r < length s"
  using parse_consumes_all [of n] by blast+

lemma fuel_consumed_all:
  "(\<forall>s v r. parse_value n s = Some (v, r) \<longrightarrow> parse_value (length s - length r) s = Some (v, r))
   \<and> (\<forall>s vs r. parse_elems n s = Some (vs, r) \<longrightarrow> parse_elems (length s - length r) s = Some (vs, r))
   \<and> (\<forall>s kvs r. parse_members n s = Some (kvs, r) \<longrightarrow>
          parse_members (length s - length r) s = Some (kvs, r))"
proof (induction n)
  case 0
  show ?case by simp
next
  case (Suc n)
  then have v: "\<And>s v r. parse_value n s = Some (v, r) \<Longrightarrow> parse_value (length s - length r) s = Some (v, r)"
    and e: "\<And>s vs r. parse_elems n s = Some (vs, r) \<Longrightarrow> parse_elems (length s - length r) s = Some (vs, r)"
    and m: "\<And>s kvs r. parse_members n s = Some (kvs, r) \<Longrightarrow>
              parse_members (length s - length r) s = Some (kvs, r)"
    by blast+
  have 1: "parse_value (length s - length r) s = Some (x, r)"
    if a: "parse_value (Suc n) s = Some (x, r)" for s x r
  proof -
    from parse_consumes(1) [OF a] obtain k where k: "length s - length r = Suc k"
      by (metis Suc_diff_Suc)
    from a show ?thesis
    proof (cases rule: value_cases)
      case leaf
      then show ?thesis by (simp add: k)
    next
      case (arr cs vs)
      have "length cs - length r \<le> k" using k arr(1) by linarith
      from parse_mono(2) [OF this e [OF arr(2)]] have "parse_elems k cs = Some (vs, r)" .
      from arr(3) [OF this] show ?thesis by (simp add: k)
    next
      case (obj cs kvs)
      have "length cs - length r \<le> k" using k obj(1) by linarith
      from parse_mono(3) [OF this m [OF obj(2)]] have "parse_members k cs = Some (kvs, r)" .
      from obj(3) [OF this] show ?thesis by (simp add: k)
    qed
  qed
  have 2: "parse_elems (length s - length r) s = Some (x, r)"
    if a: "parse_elems (Suc n) s = Some (x, r)" for s x r
  proof -
    from parse_consumes(2) [OF a] obtain k where k: "length s - length r = Suc k"
      by (metis Suc_diff_Suc)
    from a show ?thesis
    proof (cases rule: elems_cases)
      case (last y r1)
      have "length s - length r1 \<le> k" using k last(2) by linarith
      from parse_mono(1) [OF this v [OF last(1)]] have "parse_value k s = Some (y, r1)" .
      from last(3) [OF this] show ?thesis by (simp add: k)
    next
      case (more y r1 ds vs')
      note c = parse_consumes(1) [OF more(1)] parse_consumes(2) [OF more(3)]
      have "length s - length r1 \<le> k" using k more(2) c by linarith
      from parse_mono(1) [OF this v [OF more(1)]] have pv: "parse_value k s = Some (y, r1)" .
      have "length ds - length r \<le> k" using k more(2) c by linarith
      from parse_mono(2) [OF this e [OF more(3)]] have "parse_elems k ds = Some (vs', r)" .
      from more(4) [OF pv this] show ?thesis by (simp add: k)
    qed
  qed
  have 3: "parse_members (length s - length r) s = Some (x, r)"
    if a: "parse_members (Suc n) s = Some (x, r)" for s x r
  proof -
    from parse_consumes(3) [OF a] obtain k where k: "length s - length r = Suc k"
      by (metis Suc_diff_Suc)
    from a show ?thesis
    proof (cases rule: members_cases)
      case (last t y r2)
      note c = parse_consumes(1) [OF last(2)]
      have "length t - length r2 \<le> k" using k last(1,3) c by linarith
      from parse_mono(1) [OF this v [OF last(2)]] have "parse_value k t = Some (y, r2)" .
      from last(4) [OF this] show ?thesis by (simp add: k)
    next
      case (more t y r2 ds kvs')
      note c = parse_consumes(1) [OF more(2)] parse_consumes(3) [OF more(4)]
      have "length t - length r2 \<le> k" using k more(1,3) c by linarith
      from parse_mono(1) [OF this v [OF more(2)]] have pv: "parse_value k t = Some (y, r2)" .
      have "length ds - length r \<le> k" using k more(1,3) c by linarith
      from parse_mono(3) [OF this m [OF more(4)]] have "parse_members k ds = Some (kvs', r)" .
      from more(5) [OF pv this] show ?thesis by (simp add: k)
    qed
  qed
  from 1 2 3 show ?case by blast
qed

lemma JSON_parse_any_bound:
  assumes "parse_value n s = Some (v, r)" and "skip_ws r = []"
  shows "JSON_parse s = Some v"
proof -
  from fuel_consumed_all [of n] assms(1)
  have "parse_value (length s - length r) s = Some (v, r)" by blast
  moreover have "length s - length r \<le> Suc (length s)" by simp
  ultimately have "parse_value (Suc (length s)) s = Some (v, r)" by (rule parse_mono(1) [rotated])
  with assms(2) show ?thesis by (simp add: JSON_parse_def del: parse_value.simps)
qed

section \<open>Reading and writing payloads\<close>

lemma wf_elems_strings: "wf_elems (map JStr xs)"
  by (induction xs) simp_all

lemma wf_question_data: "wf_json (question_data q)"
  by (simp add: question_data_def wf_elems_strings)

lemma wf_elems_questions: "wf_elems (map question_data qs)"
  by (induction qs) (simp_all add: wf_question_data)

lemma wf_payloads:
  "wf_json (text_data h b)"
  "wf_json (image_data h u c)"
  "wf_json (video_data h m y p c)"
  "wf_json (callout_data k b)"
  "wf_json (quiz_data title qs)"
  by (simp_all add: text_data_def image_data_def video_data_def callout_data_def quiz_data_def
        wf_elems_questions)

lemma parseJsonSafe_stringify: "wf_json v \<Longrightarrow> parseJsonSafe (JSON_stringify v) d = v"
  by (simp add: parseJsonSafe_def JSON_parse_stringify)

lemma renderBlocks_fst: "map fst (renderBlocks bs) = bs"
  by (simp add: renderBlocks_def comp_def)

text \<open>
  C6. Reading a stored payload never fails: when the stored text does not parse,
  \<open>parseJsonSafe\<close> answers its fallback; \<open>renderBlocks\<close> keeps every block and gives the
  empty object as the data of a block whose text does not parse; and the public page of
  a published page is rendered with these blocks whatever their stored text is.
\<close>

theorem parseJsonSafe_degrades:
  "(JSON_parse s = None \<longrightarrow> parseJsonSafe s fallback = fallback)
   \<and> map fst (renderBlocks bs) = bs
   \<and> (\<forall>(b, d) \<in> set (renderBlocks bs). JSON_parse (block_data_json b) = None \<longrightarrow> d = JObj [])
   \<and> (select_published_page db slug = Some page \<longrightarrow>
        get_p_slug db sess slug =
          Render 200 ''public/page''
            [(''page'', LPage page),
             (''blocks'', LBlocks (renderBlocks (select_blocks_by_page db (page_id page)))),
             (''user'', user_or_null sess)])"
  by (auto simp: parseJsonSafe_def renderBlocks_def comp_def get_p_slug_def)

theorem parseJsonSafe_degrades_witness:
  "JSON_parse ''{oops'' = None
   \<and> parseJsonSafe ''{oops'' (JObj []) = JObj []
   \<and> renderBlocks [corrupt_block] = [(corrupt_block, JObj [])]
   \<and> get_p_slug corrupt_db None ''sensors-101'' =
       Render 200 ''public/page''
         [(''page'', LPage (hd (pages corrupt_db))),
          (''blocks'', LBlocks [(corrupt_block, JObj [])]),
          (''user'', LNull)]"
proof -
  have p: "JSON_parse ''{oops'' = None" by code_simp
  have sel: "select_published_page corrupt_db ''sensors-101'' = Some (hd (pages corrupt_db))"
    by (simp add: select_published_page_def corrupt_db_def)
  have lst: "select_blocks_by_page corrupt_db (page_id (hd (pages corrupt_db))) = [corrupt_block]"
    by (simp add: select_blocks_by_page_def page_blocks_def corrupt_db_def corrupt_block_def)
  have rb: "renderBlocks [corrupt_block] = [(corrupt_block, JObj [])]"
    using p by (simp add: renderBlocks_def parseJsonSafe_def corrupt_block_def)
  from parseJsonSafe_degrades
         [of "''{oops''" "JObj []" "[corrupt_block]" corrupt_db "''sensors-101''"
             "hd (pages corrupt_db)" None]
  show ?thesis
    using p sel lst rb by (simp add: user_or_null_def)
qed

text \<open>
  C7. For each of the five block types, storing a payload and reading it back gives the
  payload: \<open>parseJsonSafe (JSON_stringify p) {}\<close> is \<open>p\<close> for the text, image, video and
  callout payloads with any field values and for a quiz payload with any title and any
  list of questions, each question with any text, any list of options and any answer
  index.
\<close>

theorem payload_roundtrip:
  "parseJsonSafe (JSON_stringify (text_data h b)) (JObj []) = text_data h b
   \<and> parseJsonSafe (JSON_stringify (image_data h u c)) (JObj []) = image_data h u c
   \<and> parseJsonSafe (JSON_stringify (video_data h m y p c)) (JObj []) = video_data h m y p c
   \<and> parseJsonSafe (JSON_stringify (callout_data k b)) (JObj []) = callout_data k b
   \<and> parseJsonSafe (JSON_stringify (quiz_data title qs)) (JObj []) = quiz_data title qs"
  by (simp add: parseJsonSafe_stringify wf_payloads)

theorem payload_roundtrip_witness:
  "parseJsonSafe (JSON_stringify (default_data (Some ''quiz''))) (JObj []) =
     default_data (Some ''quiz'')
   \<and> JSON_stringify (default_data (Some ''quiz'')) =
       ''{\"title\":\"Quick Quiz\",\"questions\":[{\"q\":\"Sample question 1?\",\"options\":[\"A\",\"B\",\"C\",\"D\"],\"answer\":0}]}''"
proof -
  have d: "default_data (Some ''quiz'') =
           quiz_data ''Quick Quiz''
             [\<lparr>q_text = ''Sample question 1?'', q_options = [''A'', ''B'', ''C'', ''D''], q_answer = 0\<rparr>]"
    by (simp add: default_data_def)
  have s: "JSON_stringify (default_data (Some ''quiz'')) =
       ''{\"title\":\"Quick Quiz\",\"questions\":[{\"q\":\"Sample question 1?\",\"options\":[\"A\",\"B\",\"C\",\"D\"],\"answer\":0}]}''"
    by code_simp
  from payload_roundtrip
         [where title = "''Quick Quiz''"
            and qs = "[\<lparr>q_text = ''Sample question 1?'', q_options = [''A'', ''B'', ''C'', ''D''], q_answer = 0\<rparr>]"]
  show ?thesis using d s by simp
qed

section \<open>Accounts and pages\<close>

text \<open>When \<^verbatim>\<open>bcrypt.compare\<close> answers, a login for a username that is not stored and
  a login for a stored username with a password that does not verify get the same
  response, and both leave the session as it was.\<close>

lemma login_failures_same_when_compare_answers:
  assumes "select_user_by_username db (body1 ''username'') = None"
    and "select_user_by_username db (body2 ''username'') = Some user"
    and "bcrypt_compare E (body2 ''password'') (user_password_hash user) = Some False"
  shows "post_admin_login E db sess body1 = post_admin_login E db sess body2"
    and "post_admin_login E db sess body1 =
           (Render 200 ''admin/login'' [(''error'', LStr ''Invalid username or password'')], sess)"
  using assms by (simp_all add: post_admin_login_def login_error_def)

text \<open>
  C10. Two login attempts that fail, both without a \<^verbatim>\<open>password\<close> field, on the database
  \<open>demo_users\<close>, which stores the username \<^verbatim>\<open>admin\<close> and not \<^verbatim>\<open>mallory\<close>. For \<^verbatim>\<open>mallory\<close>
  the handler renders the login view with \<^verbatim>\<open>Invalid username or password\<close>. For \<^verbatim>\<open>admin\<close>
  it calls \<^verbatim>\<open>bcrypt.compare(undefined, hash)\<close>, which rejects; nothing catches the
  rejection and no response is rendered. Neither attempt logs in, and the two outcomes
  differ, so they tell whether the username is stored.
\<close>

theorem login_rejection_reveals_username:
  "select_user_by_username demo_users (unknown_no_password ''username'') = None
   \<and> map_option user_id (select_user_by_username demo_users (known_no_password ''username''))
       = Some 1
   \<and> unknown_no_password ''password'' = None
   \<and> known_no_password ''password'' = None
   \<and> post_admin_login demo_env demo_users None unknown_no_password =
       (Render 200 ''admin/login'' [(''error'', LStr ''Invalid username or password'')], None)
   \<and> post_admin_login demo_env demo_users None known_no_password = (Unhandled, None)
   \<and> fst (post_admin_login demo_env demo_users None unknown_no_password)
       \<noteq> fst (post_admin_login demo_env demo_users None known_no_password)"
  by code_simp

text \<open>For the decimal numeral of an id both readings of the route parameter agree, and
  the guard of the delete handler works: the own id is refused and any other id is
  deleted.\<close>

lemma show_nat_first_digit: "\<exists>c cs. show_nat n = c # cs \<and> is_digit c"
proof -
  obtain c cs where sn: "show_nat n = c # cs"
    using show_nat_nonempty [of n] by (cases "show_nat n") auto
  moreover have "is_digit c" using show_nat_digits [of n] sn by simp
  ultimately show ?thesis by blast
qed

lemma takeWhile_digits_show_nat:
  "takeWhile is_digit (show_nat n) = show_nat n" "dropWhile is_digit (show_nat n) = []"
  using takeWhile_digits_sep [OF show_nat_digits, of "[]" n] by simp_all

lemma parseInt_show_nat: "parseInt (show_nat n) = Some (int n)"
proof -
  obtain c cs where sn: "show_nat n = c # cs" and d: "is_digit c"
    using show_nat_first_digit by blast
  from d have c: "\<not> js_is_space c" "c \<noteq> CHR ''-''" "c \<noteq> CHR ''+''"
    by (auto simp: is_digit_def js_is_space_def)
  have t: "dropWhile js_is_space (show_nat n) = show_nat n" using sn c by simp
  have tw: "takeWhile is_digit (c # cs) = c # cs"
    using takeWhile_digits_show_nat(1) [of n] sn by simp
  have v: "nat_of_digits (c # cs) = n" using nat_of_digits_show_nat [of n] sn by simp
  show ?thesis
    unfolding parseInt_def t Let_def
    using c tw v by (simp add: sn)
qed

lemma sqlite_integer_of_show_nat: "sqlite_integer_of_text (show_nat n) = Some (int n)"
proof -
  obtain c cs where sn: "show_nat n = c # cs" and d: "is_digit c"
    using show_nat_first_digit by blast
  from d have c: "\<not> sqlite_is_space c" "c \<noteq> CHR ''-''" "c \<noteq> CHR ''+''"
    by (auto simp: is_digit_def sqlite_is_space_def)
  have t: "dropWhile sqlite_is_space (show_nat n) = show_nat n" using sn c by simp
  have s: "strip_sign (show_nat n) = (False, show_nat n)"
    using sn c by (simp add: strip_sign_def)
  have e: "sqlite_exponent [] = Some (0, [])" by (simp add: sqlite_exponent_def)
  show ?thesis
    unfolding sqlite_integer_of_text_def t s
    by (simp add: Let_def takeWhile_digits_show_nat e show_nat_nonempty nat_of_digits_show_nat)
qed

lemma self_delete_rejected_for_numeral:
  assumes "sess = Some u" and "su_role u = ''admin''"
  shows "post_admin_users_delete db sess (show_nat (su_id u))
           = (Send 400 ''You cannot delete yourself.'', db)"
    and "i \<noteq> su_id u \<Longrightarrow>
         post_admin_users_delete db sess (show_nat i)
           = (Redirect ''/admin/users'', db\<lparr>users := filter (\<lambda>r. user_id r \<noteq> i) (users db)\<rparr>)"
  using assms
  by (simp_all add: post_admin_users_delete_def requireAdmin_def delete_user_def
        parseInt_show_nat sqlite_integer_of_show_nat)

text \<open>
  C9. The admin of \<open>admin_session\<close> has id 1, and \<open>demo_users\<close> holds the users 1 and 2.
  For the route parameter \<^verbatim>\<open>0.1e1\<close>, \<^verbatim>\<open>parseInt\<close> answers 0, so the guard against deleting
  oneself does not fire, while the statement \<^verbatim>\<open>DELETE FROM users WHERE id=?\<close> reads the same
  text as the key 1: the handler redirects to the user list and the admin's own row is
  gone.
\<close>

theorem self_delete_bypass:
  "su_id admin_session = 1
   \<and> map user_id (users demo_users) = [1, 2]
   \<and> parseInt ''0.1e1'' = Some 0
   \<and> sqlite_integer_of_text ''0.1e1'' = Some 1
   \<and> fst (post_admin_users_delete demo_users (Some admin_session) ''0.1e1'') = Redirect ''/admin/users''
   \<and> map user_id (users (snd (post_admin_users_delete demo_users (Some admin_session) ''0.1e1''))) = [2]"
  by code_simp

text \<open>
  The message for a duplicate is not specific to a duplicate, and a duplicate does not
  always get it. On \<open>demo_users\<close>, which stores the page slug \<^verbatim>\<open>sensors-101\<close> and the
  username \<^verbatim>\<open>eve\<close>: a page with the new slug \<^verbatim>\<open>motors\<close> and the audience \<^verbatim>\<open>bogus\<close>
  gets the very response of a page with the stored slug; a page form with the stored
  slug and no title gets the message of the form check; and so does a user form with
  the stored username and no password.
\<close>

theorem conflict_message_not_specific:
  "safeSlug demo_env (js_or (bogus_audience_form ''slug'') ''Motors'') = ''motors''
   \<and> ''motors'' \<notin> set (map page_slug (pages demo_users))
   \<and> safeSlug demo_env (js_or (duplicate_page_form ''slug'') ''Sensors 101'')
       \<in> set (map page_slug (pages demo_users))
   \<and> post_admin_pages_new demo_env demo_users (Some admin_session) bogus_audience_form
         ''2024-02-01T00:00:00.000Z''
       = post_admin_pages_new demo_env demo_users (Some admin_session) duplicate_page_form
           ''2024-02-01T00:00:00.000Z''
   \<and> fst (post_admin_pages_new demo_env demo_users (Some admin_session) bogus_audience_form
            ''2024-02-01T00:00:00.000Z'')
       = Render 200 ''admin/page_form''
           [(''user'', LUser admin_session), (''page'', LNull),
            (''error'', LStr ''Slug already exists. Choose another.'')]
   \<and> safeSlug demo_env (js_or (untitled_form ''slug'') (js_or (untitled_form ''title'') []))
       \<in> set (map page_slug (pages demo_users))
   \<and> fst (post_admin_pages_new demo_env demo_users (Some admin_session) untitled_form
            ''2024-02-01T00:00:00.000Z'')
       = Render 200 ''admin/page_form''
           [(''user'', LUser admin_session), (''page'', LNull),
            (''error'', LStr ''Title and slug are required.'')]
   \<and> no_password_form ''username'' = Some ''eve''
   \<and> ''eve'' \<in> set (map user_username (users demo_users))
   \<and> fst (post_admin_users_new demo_env demo_users (Some admin_session) no_password_form
            ''2024-02-01T00:00:00.000Z'')
       = Render 200 ''admin/users''
           [(''user'', LUser admin_session), (''users'', LUsers (select_users_listing demo_users)),
            (''error'', LStr ''Username and password required.'')]"
  by code_simp

text \<open>
  C4. A request by a logged-in user to create a page with a title and a non-empty final
  slug is answered with the page form and the message
  \<^verbatim>\<open>Slug already exists. Choose another.\<close>, the database unchanged, exactly when the insert fails: when the final slug is the slug of
  a stored page, and also when the audience or the status is not an allowed value. A
  request by an admin to create a user with a username and a password is answered with
  the user list and the message \<^verbatim>\<open>Username already exists.\<close>, the database unchanged,
  exactly when the username is the username of a stored user or the hashing fails. In
  both handlers the message differs from the message of the form check.
\<close>

theorem duplicate_gets_conflict_message:
  "(sess = Some u \<and> body ''title'' = Some ttl \<and> ttl \<noteq> []
      \<and> safeSlug E (js_or (body ''slug'') ttl) \<noteq> []
    \<longrightarrow> (post_admin_pages_new E db sess body t =
           (Render 200 ''admin/page_form''
              [(''user'', LUser u), (''page'', LNull),
               (''error'', LStr ''Slug already exists. Choose another.'')], db)
         \<longleftrightarrow> safeSlug E (js_or (body ''slug'') ttl) \<in> set (map page_slug (pages db))
             \<or> js_or (body ''audience'') ''general'' \<notin> set [''junior'', ''undergrad'', ''general'']
             \<or> js_or (body ''status'') ''draft'' \<notin> set [''draft'', ''published''])
        \<and> fst (post_admin_pages_new E db sess body t)
            \<noteq> page_form_error u ''Title and slug are required.'')
   \<and> (sess = Some u \<and> su_role u = ''admin''
      \<and> ubody ''username'' = Some name \<and> name \<noteq> []
      \<and> ubody ''password'' = Some pw \<and> pw \<noteq> []
    \<longrightarrow> (post_admin_users_new E db sess ubody t =
           (Render 200 ''admin/users''
              [(''user'', LUser u), (''users'', LUsers (select_users_listing db)),
               (''error'', LStr ''Username already exists.'')], db)
         \<longleftrightarrow> name \<in> set (map user_username (users db)) \<or> bcrypt_hash E pw = None)
        \<and> fst (post_admin_users_new E db sess ubody t)
            \<noteq> users_error db u ''Username and password required.'')"
proof -
  have pages:
    "(post_admin_pages_new E db sess body t =
           (Render 200 ''admin/page_form''
              [(''user'', LUser u), (''page'', LNull),
               (''error'', LStr ''Slug already exists. Choose another.'')], db)
         \<longleftrightarrow> safeSlug E (js_or (body ''slug'') ttl) \<in> set (map page_slug (pages db))
             \<or> js_or (body ''audience'') ''general'' \<notin> set [''junior'', ''undergrad'', ''general'']
             \<or> js_or (body ''status'') ''draft'' \<notin> set [''draft'', ''published''])
     \<and> fst (post_admin_pages_new E db sess body t)
            \<noteq> page_form_error u ''Title and slug are required.''"
    if h: "sess = Some u \<and> body ''title'' = Some ttl \<and> ttl \<noteq> []
      \<and> safeSlug E (js_or (body ''slug'') ttl) \<noteq> []"
  proof -
    have t: "\<not> falsy_field (body ''title'')" "js_or (body ''title'') [] = ttl"
      "js_to_string (body ''title'') = ttl"
      using h by (simp_all add: falsy_field_def js_or_def js_to_string_def)
    from h have s: "sess = Some u" "safeSlug E (js_or (body ''slug'') ttl) \<noteq> []"
      by simp_all
    show ?thesis
      using s(2)
      by (simp add: post_admin_pages_new_def requireAuth_def insert_page_def page_form_error_def
            Let_def t s(1))
  qed
  have usrs:
    "(post_admin_users_new E db sess ubody t =
           (Render 200 ''admin/users''
              [(''user'', LUser u), (''users'', LUsers (select_users_listing db)),
               (''error'', LStr ''Username already exists.'')], db)
         \<longleftrightarrow> name \<in> set (map user_username (users db)) \<or> bcrypt_hash E pw = None)
     \<and> fst (post_admin_users_new E db sess ubody t)
            \<noteq> users_error db u ''Username and password required.''"
    if h: "sess = Some u \<and> su_role u = ''admin''
      \<and> ubody ''username'' = Some name \<and> name \<noteq> []
      \<and> ubody ''password'' = Some pw \<and> pw \<noteq> []"
  proof -
    have f: "\<not> falsy_field (ubody ''username'')" "\<not> falsy_field (ubody ''password'')"
      "js_to_string (ubody ''username'') = name" "js_to_string (ubody ''password'') = pw"
      using h by (simp_all add: falsy_field_def js_to_string_def)
    from h have s: "sess = Some u" "su_role u = ''admin''" by simp_all
    show ?thesis
      by (cases "bcrypt_hash E pw")
         (simp_all add: post_admin_users_new_def requireAdmin_def insert_user_def users_error_def
            Let_def f s)
  qed
  show ?thesis
  proof (rule conjI)
    show "sess = Some u \<and> body ''title'' = Some ttl \<and> ttl \<noteq> []
      \<and> safeSlug E (js_or (body ''slug'') ttl) \<noteq> []
    \<longrightarrow> (post_admin_pages_new E db sess body t =
           (Render 200 ''admin/page_form''
              [(''user'', LUser u), (''page'', LNull),
               (''error'', LStr ''Slug already exists. Choose another.'')], db)
         \<longleftrightarrow> safeSlug E (js_or (body ''slug'') ttl) \<in> set (map page_slug (pages db))
             \<or> js_or (body ''audience'') ''general'' \<notin> set [''junior'', ''undergrad'', ''general'']
             \<or> js_or (body ''status'') ''draft'' \<notin> set [''draft'', ''published''])
        \<and> fst (post_admin_pages_new E db sess body t)
            \<noteq> page_form_error u ''Title and slug are required.''"
      by (rule impI) (rule pages)
    show "sess = Some u \<and> su_role u = ''admin''
      \<and> ubody ''username'' = Some name \<and> name \<noteq> []
      \<and> ubody ''password'' = Some pw \<and> pw \<noteq> []
    \<longrightarrow> (post_admin_users_new E db sess ubody t =
           (Render 200 ''admin/users''
              [(''user'', LUser u), (''users'', LUsers (select_users_listing db)),
               (''error'', LStr ''Username already exists.'')], db)
         \<longleftrightarrow> name \<in> set (map user_username (users db)) \<or> bcrypt_hash E pw = None)
        \<and> fst (post_admin_users_new E db sess ubody t)
            \<noteq> users_error db u ''Username and password required.''"
      by (rule impI) (rule usrs)
  qed
qed

theorem duplicate_gets_conflict_message_witness:
  "post_admin_pages_new demo_env demo_users (Some admin_session) duplicate_page_form
      ''2024-02-01T00:00:00.000Z'' =
     (Render 200 ''admin/page_form''
        [(''user'', LUser admin_session), (''page'', LNull),
         (''error'', LStr ''Slug already exists. Choose another.'')], demo_users)
   \<and> post_admin_users_new demo_env demo_users (Some admin_session) duplicate_user_form
      ''2024-02-01T00:00:00.000Z'' =
     (Render 200 ''admin/users''
        [(''user'', LUser admin_session), (''users'', LUsers (select_users_listing demo_users)),
         (''error'', LStr ''Username already exists.'')], demo_users)
   \<and> post_admin_pages_new demo_env demo_users (Some admin_session) bogus_audience_form
      ''2024-02-01T00:00:00.000Z'' =
     (Render 200 ''admin/page_form''
        [(''user'', LUser admin_session), (''page'', LNull),
         (''error'', LStr ''Slug already exists. Choose another.'')], demo_users)
   \<and> post_admin_users_new failing_hash_env demo_users (Some admin_session) new_user_form
      ''2024-02-01T00:00:00.000Z'' =
     (Render 200 ''admin/users''
        [(''user'', LUser admin_session), (''users'', LUsers (select_users_listing demo_users)),
         (''error'', LStr ''Username already exists.'')], demo_users)"
proof -
  have s1: "safeSlug demo_env (js_or (duplicate_page_form ''slug'') ''Sensors 101'') = ''sensors-101''"
    and s2: "safeSlug demo_env (js_or (bogus_audience_form ''slug'') ''Motors'') = ''motors''"
    by code_simp+
  have f1: "duplicate_page_form ''title'' = Some ''Sensors 101''"
    and f2: "bogus_audience_form ''title'' = Some ''Motors''"
    and f3: "js_or (bogus_audience_form ''audience'') ''general'' = ''bogus''"
    and f4: "duplicate_user_form ''username'' = Some ''eve''"
      "duplicate_user_form ''password'' = Some ''secret''"
    and f5: "new_user_form ''username'' = Some ''carol''"
      "new_user_form ''password'' = Some ''secret''"
    by (simp_all add: duplicate_page_form_def bogus_audience_form_def duplicate_user_form_def
          new_user_form_def js_or_def)
  have h1: "''sensors-101'' \<in> set (map page_slug (pages demo_users))"
    and h2: "''eve'' \<in> set (map user_username (users demo_users))"
    and h3: "su_role admin_session = ''admin''"
    and h4: "bcrypt_hash failing_hash_env ''secret'' = None"
    by (simp_all add: demo_users_def admin_session_def failing_hash_env_def)
  from duplicate_gets_conflict_message
         [of "Some admin_session" admin_session duplicate_page_form "''Sensors 101''" demo_env
             demo_users "''2024-02-01T00:00:00.000Z''" duplicate_user_form "''eve''" "''secret''"]
       duplicate_gets_conflict_message
         [of "Some admin_session" admin_session bogus_audience_form "''Motors''" demo_env
             demo_users "''2024-02-01T00:00:00.000Z''" duplicate_user_form "''eve''" "''secret''"]
       duplicate_gets_conflict_message
         [of "Some admin_session" admin_session duplicate_page_form "''Sensors 101''"
             failing_hash_env
             demo_users "''2024-02-01T00:00:00.000Z''" new_user_form "''carol''" "''secret''"]
  show ?thesis
    using s1 s2 f1 f2 f3 f4 f5 h1 h2 h3 h4 by simp
qed

section \<open>The order of blocks\<close>

subsection \<open>Renumbering after a delete\<close>

lemma gapless_iff_mset:
  "gapless db p \<longleftrightarrow> mset (positions db p) = mset [1 .. int (length (positions db p))]"
proof
  assume "gapless db p"
  then have "distinct (positions db p)"
    and "set (positions db p) = set [1 .. int (length (positions db p))]"
    by (simp_all add: gapless_def)
  then show "mset (positions db p) = mset [1 .. int (length (positions db p))]"
    using set_eq_iff_mset_eq_distinct [of "positions db p" "[1 .. int (length (positions db p))]"]
    by simp
next
  assume m: "mset (positions db p) = mset [1 .. int (length (positions db p))]"
  from mset_eq_imp_distinct_iff [OF m] have "distinct (positions db p)" by simp
  moreover from mset_eq_setD [OF m]
  have "set (positions db p) = {1 .. int (length (positions db p))}" by simp
  ultimately show "gapless db p" by (simp add: gapless_def)
qed

lemma renumbered_fresh: "block_id b \<notin> set (map block_id xs) \<Longrightarrow> renumbered xs i ts b = b"
  by (induction xs arbitrary: i) auto

lemma renumbered_id [simp]: "block_id (renumbered xs i ts b) = block_id b"
  by (induction xs arbitrary: i) auto

lemma renumbered_page [simp]: "block_page_id (renumbered xs i ts b) = block_page_id b"
  by (induction xs arbitrary: i) auto

lemma blocks_update_block_position [simp]:
  "blocks (update_block_position db i pos t) =
     map (\<lambda>b. if block_id b = i then b\<lparr>block_position := pos, block_updated_at := t\<rparr> else b)
       (blocks db)"
  by (simp add: update_block_position_def)

lemma renumber_blocks:
  "distinct (map block_id xs) \<Longrightarrow>
   blocks (renumber db xs i ts) = map (renumbered xs i ts) (blocks db)"
proof (induction xs arbitrary: db i)
  case Nil
  then show ?case by simp
next
  case (Cons x xs)
  then have d: "distinct (map block_id xs)" and fresh: "block_id x \<notin> set (map block_id xs)"
    by simp_all
  have "renumbered xs (Suc i) ts
          (if block_id b = block_id x
           then b\<lparr>block_position := int i + 1, block_updated_at := ts i\<rparr> else b)
        = renumbered (x # xs) i ts b" for b
    using fresh by (simp add: renumbered_fresh)
  then show ?case
    using Cons.IH [OF d] by (simp add: comp_def)
qed

lemma renumber_other [simp]:
  "users (renumber db xs i ts) = users db"
  "pages (renumber db xs i ts) = pages db"
  "foreign_keys (renumber db xs i ts) = foreign_keys db"
  by (induction xs arbitrary: db i) (simp_all add: update_block_position_def)

lemma renumbered_positions:
  "distinct (map block_id xs) \<Longrightarrow>
   map (\<lambda>b. block_position (renumbered xs i ts b)) xs = [int i + 1 .. int i + int (length xs)]"
proof (induction xs arbitrary: i)
  case Nil
  then show ?case by simp
next
  case (Cons x xs)
  then have d: "distinct (map block_id xs)" and fresh: "block_id x \<notin> set (map block_id xs)"
    by simp_all
  have "map (\<lambda>b. block_position (renumbered (x # xs) i ts b)) xs
        = map (\<lambda>b. block_position (renumbered xs (Suc i) ts b)) xs"
  proof (rule map_cong [OF refl])
    fix b assume "b \<in> set xs"
    with fresh have "block_id b \<noteq> block_id x" by (auto simp: image_iff)
    then show "block_position (renumbered (x # xs) i ts b)
               = block_position (renumbered xs (Suc i) ts b)" by simp
  qed
  also have "\<dots> = [int (Suc i) + 1 .. int (Suc i) + int (length xs)]"
    by (rule Cons.IH [OF d])
  finally have rest: "map (\<lambda>b. block_position (renumbered (x # xs) i ts b)) xs
        = [int i + 2 .. int i + 1 + int (length xs)]"
    by (simp add: add.commute add.left_commute)
  have "[int i + 1 .. int i + int (length (x # xs))]
        = (int i + 1) # [int i + 2 .. int i + 1 + int (length xs)]"
    by (subst upto_rec1) (simp_all add: add.commute add.left_commute)
  with rest show ?case by simp
qed

lemma fold_max_ge: "x \<in> set ids \<Longrightarrow> x \<le> fold max ids (s::nat)"
proof (induction ids arbitrary: s)
  case Nil
  then show ?case by simp
next
  case (Cons y ys)
  have mono: "s \<le> fold max ys s" for s :: nat
    by (induction ys arbitrary: s) (auto intro: order_trans [OF max.cobounded2])
  show ?case
  proof (cases "x = y")
    case True
    then show ?thesis using mono [of "max y s"] by simp
  next
    case False
    with Cons show ?thesis by simp
  qed
qed

lemma next_rowid_fresh: "next_rowid s ids \<notin> set ids"
  using fold_max_ge [of "next_rowid s ids" ids s] by (auto simp: next_rowid_def)

lemma key_unique:
  "distinct (map block_id xs) \<Longrightarrow> a \<in> set xs \<Longrightarrow> b \<in> set xs \<Longrightarrow> block_id a = block_id b \<Longrightarrow> a = b"
  by (meson distinct_map inj_onD)

lemma page_blocks_subset: "b \<in> set (page_blocks db p) \<longleftrightarrow> b \<in> set (blocks db) \<and> block_page_id b = p"
  by (auto simp: page_blocks_def)

lemma set_listing [simp]: "set (select_blocks_by_page db p) = set (page_blocks db p)"
  by (simp add: select_blocks_by_page_def)

lemma mset_listing [simp]: "mset (select_blocks_by_page db p) = mset (page_blocks db p)"
  by (simp add: select_blocks_by_page_def)

lemma length_listing [simp]: "length (select_blocks_by_page db p) = length (page_blocks db p)"
  by (simp add: select_blocks_by_page_def)

lemma distinct_ids_page: "blocks_key db \<Longrightarrow> distinct (map block_id (page_blocks db p))"
  by (simp add: blocks_key_def page_blocks_def distinct_map_filter)

lemma distinct_ids_listing: "blocks_key db \<Longrightarrow> distinct (map block_id (select_blocks_by_page db p))"
proof -
  assume "blocks_key db"
  then have "distinct (map block_id (page_blocks db p))" by (rule distinct_ids_page)
  moreover have "mset (map block_id (select_blocks_by_page db p)) = mset (map block_id (page_blocks db p))"
    by simp
  ultimately show ?thesis using mset_eq_imp_distinct_iff by blast
qed

lemma select_block_by_id_Some:
  "select_block_by_id db i = Some b \<Longrightarrow> b \<in> set (blocks db) \<and> block_id b = i"
  by (auto simp: select_block_by_id_def find_Some_iff)

lemma page_blocks_renumber:
  "distinct (map block_id xs) \<Longrightarrow>
   page_blocks (renumber db xs i ts) q = map (renumbered xs i ts) (page_blocks db q)"
  by (simp add: page_blocks_def renumber_blocks filter_map comp_def)

lemma blocks_key_renumber:
  "distinct (map block_id xs) \<Longrightarrow> blocks_key (renumber db xs i ts) = blocks_key db"
  by (simp add: blocks_key_def renumber_blocks comp_def)

lemma renumber_gapless:
  assumes "blocks_key db"
  shows "gapless (renumber db (select_blocks_by_page db p) 0 ts) p"
proof -
  let ?L = "select_blocks_by_page db p"
  let ?f = "\<lambda>b. block_position (renumbered ?L 0 ts b)"
  have d: "distinct (map block_id ?L)" by (rule distinct_ids_listing [OF assms])
  have pos: "positions (renumber db ?L 0 ts) p = map ?f (page_blocks db p)"
    by (simp add: positions_def page_blocks_renumber [OF d] comp_def)
  have "mset (map ?f (page_blocks db p)) = image_mset ?f (mset (page_blocks db p))" by simp
  also have "\<dots> = image_mset ?f (mset ?L)" by simp
  also have "\<dots> = mset (map ?f ?L)" by simp
  also have "\<dots> = mset [1 .. int (length ?L)]"
    using renumbered_positions [OF d, of 0 ts] by simp
  finally have "mset (positions (renumber db ?L 0 ts) p)
                = mset [1 .. int (length (positions (renumber db ?L 0 ts) p))]"
    by (simp add: pos)
  then show ?thesis by (simp add: gapless_iff_mset)
qed

lemma renumber_other_pages:
  assumes "blocks_key db" and "q \<noteq> p"
  shows "page_blocks (renumber db (select_blocks_by_page db p) 0 ts) q = page_blocks db q"
proof -
  let ?L = "select_blocks_by_page db p"
  have d: "distinct (map block_id ?L)" by (rule distinct_ids_listing [OF assms(1)])
  have "renumbered ?L 0 ts b = b" if b: "b \<in> set (page_blocks db q)" for b
  proof (rule renumbered_fresh)
    show "block_id b \<notin> set (map block_id ?L)"
    proof
      assume "block_id b \<in> set (map block_id ?L)"
      then obtain x where x: "x \<in> set (page_blocks db p)" "block_id x = block_id b" by auto
      from b x have "b \<in> set (blocks db)" "x \<in> set (blocks db)"
        by (simp_all add: page_blocks_subset)
      with assms(1) x(2) have "x = b" by (auto simp: blocks_key_def intro: key_unique)
      with b x(1) assms(2) show False by (simp add: page_blocks_subset)
    qed
  qed
  then have "map (renumbered ?L 0 ts) (page_blocks db q) = page_blocks db q"
    by (simp add: map_idI)
  then show ?thesis by (simp add: page_blocks_renumber [OF d])
qed

lemma blocks_key_delete_block: "blocks_key db \<Longrightarrow> blocks_key (delete_block db i)"
  by (simp add: blocks_key_def delete_block_def distinct_map_filter)

lemma delete_block_other_pages:
  assumes "blocks_key db" and "b \<in> set (blocks db)" and "q \<noteq> block_page_id b"
  shows "page_blocks (delete_block db (block_id b)) q = page_blocks db q"
proof -
  have "block_id x \<noteq> block_id b" if "x \<in> set (blocks db)" "block_page_id x = q" for x
    using that assms by (auto simp: blocks_key_def dest: key_unique)
  then have "filter (\<lambda>x. block_page_id x = q) (filter (\<lambda>x. block_id x \<noteq> block_id b) (blocks db))
             = filter (\<lambda>x. block_page_id x = q) (blocks db)"
    unfolding filter_filter by (intro filter_cong) auto
  then show ?thesis by (simp add: page_blocks_def delete_block_def)
qed

lemma gapless_cong: "page_blocks db' q = page_blocks db q \<Longrightarrow> gapless db' q = gapless db q"
  by (simp add: gapless_def positions_def)

lemma delete_preserves:
  assumes "blocks_key db"
  shows "blocks_key (snd (post_admin_blocks_delete db sess i ts))
         \<and> (\<forall>p. gapless db p \<longrightarrow> gapless (snd (post_admin_blocks_delete db sess i ts)) p)"
proof (cases "\<exists>u b. sess = Some u \<and> select_block_by_id db i = Some b")
  case False
  then show ?thesis
    using assms
    by (auto simp: post_admin_blocks_delete_def requireAuth_def split: option.splits)
next
  case True
  then obtain u b where s: "sess = Some u" and f: "select_block_by_id db i = Some b" by blast
  from select_block_by_id_Some [OF f] have b: "b \<in> set (blocks db)" "block_id b = i" by simp_all
  let ?db1 = "delete_block db i"
  let ?db2 = "renumber ?db1 (select_blocks_by_page ?db1 (block_page_id b)) 0 ts"
  have r: "snd (post_admin_blocks_delete db sess i ts) = ?db2"
    using s f b by (simp add: post_admin_blocks_delete_def requireAuth_def Let_def)
  have k1: "blocks_key ?db1" by (rule blocks_key_delete_block [OF assms(1)])
  have k2: "blocks_key ?db2"
    using k1 by (simp add: blocks_key_renumber distinct_ids_listing)
  have "gapless ?db2 q" if g: "gapless db q" for q
  proof (cases "q = block_page_id b")
    case True
    then show ?thesis using renumber_gapless [OF k1] by simp
  next
    case False
    have "page_blocks ?db2 q = page_blocks ?db1 q"
      by (rule renumber_other_pages [OF k1 False])
    also have "\<dots> = page_blocks db q"
      using delete_block_other_pages [OF assms(1) b(1) False] b(2) by simp
    finally have "gapless ?db2 q = gapless db q" by (rule gapless_cong)
    with g show ?thesis by simp
  qed
  with k2 r show ?thesis by simp
qed

subsection \<open>Appending and swapping\<close>

lemma select_page_by_id_Some:
  "select_page_by_id db i = Some p \<Longrightarrow> p \<in> set (pages db) \<and> page_id p = i"
  by (auto simp: select_page_by_id_def find_Some_iff)

lemma insert_block_Inr:
  assumes "insert_block db p ty data pos t = Inr db'"
  shows "\<exists>ty'. ty = Some ty' \<and> ty' \<in> set block_types \<and>
          db' = db\<lparr>blocks := blocks db @
                      [\<lparr>block_id = next_rowid (blocks_seq db) (map block_id (blocks db)),
                        block_page_id = p, block_type = ty', block_data_json = data,
                        block_position = pos, block_created_at = t, block_updated_at = t\<rparr>],
                    blocks_seq := next_rowid (blocks_seq db) (map block_id (blocks db))\<rparr>"
  using assms by (auto simp: insert_block_def Let_def split: option.splits if_splits)

lemma gapless_append:
  assumes "gapless db p"
    and "page_blocks db' p = page_blocks db p @ [b]"
    and "block_position b = int (length (page_blocks db p)) + 1"
  shows "gapless db' p"
proof -
  let ?n = "int (length (positions db p))"
  from assms(1) have d: "distinct (positions db p)" and s: "set (positions db p) = {1 .. ?n}"
    by (simp_all add: gapless_def)
  have p': "positions db' p = positions db p @ [?n + 1]"
    using assms(2,3) by (simp add: positions_def)
  have "distinct (positions db' p)" using d s by (simp add: p')
  moreover have "set (positions db' p) = {1 .. int (length (positions db' p))}"
    using s by (auto simp: p')
  ultimately show ?thesis by (simp add: gapless_def)
qed

lemma add_preserves:
  assumes "blocks_key db"
  shows "blocks_key (snd (post_admin_pages_blocks_add db sess i body t))
         \<and> (\<forall>p. gapless db p \<longrightarrow> gapless (snd (post_admin_pages_blocks_add db sess i body t)) p)"
proof (cases "\<exists>u page db'. sess = Some u \<and> select_page_by_id db i = Some page
                \<and> insert_block db (page_id page) (body ''type'')
                     (JSON_stringify (default_data (body ''type'')))
                     (int (count_blocks db (page_id page)) + 1) t = Inr db'")
  case False
  then have "snd (post_admin_pages_blocks_add db sess i body t) = db"
    by (auto simp: post_admin_pages_blocks_add_def requireAuth_def Let_def
             split: option.splits sum.splits)
  with assms show ?thesis by simp
next
  case True
  then obtain u page db' where s: "sess = Some u" and pg: "select_page_by_id db i = Some page"
    and ins: "insert_block db (page_id page) (body ''type'')
                (JSON_stringify (default_data (body ''type'')))
                (int (count_blocks db (page_id page)) + 1) t = Inr db'"
    by blast
  have r: "snd (post_admin_pages_blocks_add db sess i body t) = db'"
    using s pg ins by (simp add: post_admin_pages_blocks_add_def requireAuth_def Let_def)
  from insert_block_Inr [OF ins] obtain new where
    b': "blocks db' = blocks db @ [new]"
    and nid: "block_id new = next_rowid (blocks_seq db) (map block_id (blocks db))"
    and npg: "block_page_id new = page_id page"
    and npos: "block_position new = int (count_blocks db (page_id page)) + 1"
    by auto
  have k: "blocks_key db'"
    using assms(1) next_rowid_fresh [of "blocks_seq db" "map block_id (blocks db)"]
    by (simp add: blocks_key_def b' nid)
  have "gapless db' q" if g: "gapless db q" for q
  proof (cases "q = page_id page")
    case True
    have "page_blocks db' q = page_blocks db q @ [new]"
      using True npg by (simp add: page_blocks_def b')
    moreover have "block_position new = int (length (page_blocks db q)) + 1"
      using npos True by (simp add: count_blocks_def)
    ultimately show ?thesis using g gapless_append by blast
  next
    case False
    then have "page_blocks db' q = page_blocks db q"
      using npg by (simp add: page_blocks_def b')
    then have "gapless db' q = gapless db q" by (rule gapless_cong)
    with g show ?thesis by simp
  qed
  with k r show ?thesis by simp
qed

lemma findIndex_range: "findIndex P xs = - 1 \<or> (0 \<le> findIndex P xs \<and> findIndex P xs < int (length xs))"
  by (induction xs) (auto simp: Let_def)

lemma findIndex_nth:
  "distinct (map f xs) \<Longrightarrow> j < length xs \<Longrightarrow> findIndex (\<lambda>x. f x = f (xs ! j)) xs = int j"
proof (induction xs arbitrary: j)
  case Nil
  then show ?case by simp
next
  case (Cons x xs)
  show ?case
  proof (cases j)
    case 0
    then show ?thesis by simp
  next
    case (Suc k)
    with Cons.prems have k: "k < length xs" and d: "distinct (map f xs)"
      and ne: "f x \<noteq> f (xs ! k)"
      by (auto simp: image_iff)
    from Cons.IH [OF d k] ne Suc show ?thesis by (simp add: Let_def)
  qed
qed

lemma swapped_id [simp]: "block_id (swapped a b ts x) = block_id x"
  by (simp add: swapped_def Let_def)

lemma swapped_page [simp]: "block_page_id (swapped a b ts x) = block_page_id x"
  by (simp add: swapped_def Let_def)

lemma swapped_position:
  "block_position (swapped a b ts x) =
     (if block_id x = block_id b then block_position a
      else if block_id x = block_id a then block_position b
      else block_position x)"
  by (simp add: swapped_def Let_def)

lemma two_updates:
  "update_block_position (update_block_position db (block_id a) (block_position b) (ts 0))
      (block_id b) (block_position a) (ts 1)
   = db\<lparr>blocks := map (swapped a b ts) (blocks db)\<rparr>"
  by (simp add: update_block_position_def swapped_def Let_def comp_def)

lemma move_cases:
  assumes "sess = Some u" and "select_block_by_id db i = Some blk"
  shows "post_admin_blocks_move db sess i body ts = (Redirect (blocks_url (block_page_id blk)), db)
         \<or> (\<exists>a b. a \<in> set (page_blocks db (block_page_id blk))
                \<and> b \<in> set (page_blocks db (block_page_id blk))
                \<and> post_admin_blocks_move db sess i body ts =
                    (Redirect (blocks_url (block_page_id blk)),
                     db\<lparr>blocks := map (swapped a b ts) (blocks db)\<rparr>))"
proof -
  let ?L = "select_blocks_by_page db (block_page_id blk)"
  let ?idx = "findIndex (\<lambda>b. block_id b = block_id blk) ?L"
  let ?swap = "if body ''dir'' = Some ''down'' then ?idx + 1
               else if body ''dir'' = Some ''up'' then ?idx - 1 else ?idx"
  show ?thesis
  proof (cases "?idx = - 1 \<or> ?swap < 0 \<or> int (length ?L) \<le> ?swap")
    case True
    then have "post_admin_blocks_move db sess i body ts = (Redirect (blocks_url (block_page_id blk)), db)"
      using assms by (auto simp: post_admin_blocks_move_def requireAuth_def Let_def)
    then show ?thesis by simp
  next
    case False
    then have i1: "?idx \<noteq> - 1" and s1: "0 \<le> ?swap" "?swap < int (length ?L)" by auto
    from findIndex_range [of "\<lambda>b. block_id b = block_id blk" ?L] i1
    have i2: "0 \<le> ?idx" "?idx < int (length ?L)" by auto
    let ?a = "?L ! nat ?idx" and ?b = "?L ! nat ?swap"
    have "nat ?idx < length ?L" using i2 by linarith
    then have a: "?a \<in> set ?L" by (rule nth_mem)
    have "nat ?swap < length ?L" using s1 by linarith
    then have b: "?b \<in> set ?L" by (rule nth_mem)
    have "post_admin_blocks_move db sess i body ts =
            (Redirect (blocks_url (block_page_id blk)),
             update_block_position (update_block_position db (block_id ?a) (block_position ?b) (ts 0))
               (block_id ?b) (block_position ?a) (ts 1))"
      using assms False
      by (simp add: post_admin_blocks_move_def requireAuth_def Let_def)
    then have "post_admin_blocks_move db sess i body ts =
            (Redirect (blocks_url (block_page_id blk)), db\<lparr>blocks := map (swapped ?a ?b ts) (blocks db)\<rparr>)"
      by (simp only: two_updates)
    with a b show ?thesis by (metis set_listing)
  qed
qed

lemma swapped_positions_mset:
  assumes "distinct (map block_id xs)" and "a \<in> set xs" and "b \<in> set xs"
  shows "mset (map (\<lambda>x. block_position (swapped a b ts x)) xs) = mset (map block_position xs)"
proof (cases "block_id a = block_id b")
  case True
  with assms have ab: "a = b" by (auto dest: key_unique)
  have "block_position (swapped a b ts x) = block_position x" if "x \<in> set xs" for x
    using that assms ab by (auto simp: swapped_position dest: key_unique)
  then have "map (\<lambda>x. block_position (swapped a b ts x)) xs = map block_position xs"
    by simp
  then show ?thesis by (simp only:)
next
  case False
  let ?g = "\<lambda>x. block_position (swapped a b ts x)"
  have other: "map ?g ys = map block_position ys"
    if "block_id a \<notin> set (map block_id ys)" "block_id b \<notin> set (map block_id ys)" for ys
  proof (rule map_cong [OF refl])
    fix x assume "x \<in> set ys"
    with that have "block_id x \<noteq> block_id a" "block_id x \<noteq> block_id b" by (auto simp: image_iff)
    then show "?g x = block_position x" by (simp add: swapped_position)
  qed
  have ga: "?g a = block_position b" and gb: "?g b = block_position a"
    using False by (simp_all add: swapped_position)
  from split_list [OF assms(2)] obtain ys zs where xs: "xs = ys @ a # zs" by blast
  from assms(3) xs False have "b \<in> set ys \<or> b \<in> set zs" by auto
  then show ?thesis
  proof
    assume "b \<in> set ys"
    from split_list [OF this] obtain ys1 ys2 where ys: "ys = ys1 @ b # ys2" by blast
    from assms(1) have
      n: "block_id a \<notin> set (map block_id ys1)" "block_id b \<notin> set (map block_id ys1)"
      "block_id a \<notin> set (map block_id ys2)" "block_id b \<notin> set (map block_id ys2)"
      "block_id a \<notin> set (map block_id zs)" "block_id b \<notin> set (map block_id zs)"
      unfolding xs ys by auto
    have e: "map ?g ys1 = map block_position ys1" "map ?g ys2 = map block_position ys2"
      "map ?g zs = map block_position zs"
      by (rule other [OF n(1,2)], rule other [OF n(3,4)], rule other [OF n(5,6)])
    show ?thesis unfolding xs ys by (simp add: e ga gb)
  next
    assume "b \<in> set zs"
    from split_list [OF this] obtain zs1 zs2 where zs: "zs = zs1 @ b # zs2" by blast
    from assms(1) have
      n: "block_id a \<notin> set (map block_id ys)" "block_id b \<notin> set (map block_id ys)"
      "block_id a \<notin> set (map block_id zs1)" "block_id b \<notin> set (map block_id zs1)"
      "block_id a \<notin> set (map block_id zs2)" "block_id b \<notin> set (map block_id zs2)"
      unfolding xs zs by auto
    have e: "map ?g ys = map block_position ys" "map ?g zs1 = map block_position zs1"
      "map ?g zs2 = map block_position zs2"
      by (rule other [OF n(1,2)], rule other [OF n(3,4)], rule other [OF n(5,6)])
    show ?thesis unfolding xs zs by (simp add: e ga gb)
  qed
qed

lemma page_blocks_swapped:
  "page_blocks (db\<lparr>blocks := map (swapped a b ts) (blocks db)\<rparr>) q
   = map (swapped a b ts) (page_blocks db q)"
  by (simp add: page_blocks_def filter_map comp_def)

lemma swapped_gapless:
  assumes "blocks_key db" and "a \<in> set (page_blocks db p)" and "b \<in> set (page_blocks db p)"
  shows "gapless (db\<lparr>blocks := map (swapped a b ts) (blocks db)\<rparr>) q = gapless db q"
proof -
  let ?db' = "db\<lparr>blocks := map (swapped a b ts) (blocks db)\<rparr>"
  have pos: "positions ?db' q = map (\<lambda>x. block_position (swapped a b ts x)) (page_blocks db q)"
    by (simp add: positions_def page_blocks_swapped comp_def)
  have "mset (positions ?db' q) = mset (positions db q)"
  proof (cases "q = p")
    case True
    have "mset (positions ?db' q)
          = mset (map (\<lambda>x. block_position (swapped a b ts x)) (page_blocks db p))"
      unfolding pos unfolding True by (rule refl)
    also have "\<dots> = mset (map block_position (page_blocks db p))"
      by (rule swapped_positions_mset [OF distinct_ids_page [OF assms(1)] assms(2,3)])
    also have "\<dots> = mset (positions db q)"
      by (simp only: positions_def True)
    finally show ?thesis .
  next
    case False
    have "block_position (swapped a b ts x) = block_position x" if "x \<in> set (page_blocks db q)" for x
    proof -
      from that assms(2,3) have m: "x \<in> set (blocks db)" "a \<in> set (blocks db)" "b \<in> set (blocks db)"
        and pg: "block_page_id x = q" "block_page_id a = p" "block_page_id b = p"
        by (simp_all add: page_blocks_subset)
      from assms(1) have d: "distinct (map block_id (blocks db))" by (simp add: blocks_key_def)
      have "block_id x \<noteq> block_id a" using key_unique [OF d m(1) m(2)] pg False by auto
      moreover have "block_id x \<noteq> block_id b" using key_unique [OF d m(1) m(3)] pg False by auto
      ultimately show ?thesis by (simp add: swapped_position)
    qed
    then have "map (\<lambda>x. block_position (swapped a b ts x)) (page_blocks db q)
               = map block_position (page_blocks db q)"
      by simp
    then show ?thesis by (simp only: pos) (simp only: positions_def)
  qed
  moreover have "length (positions ?db' q) = length (positions db q)"
    by (simp add: positions_def page_blocks_swapped)
  ultimately show ?thesis by (simp add: gapless_iff_mset)
qed

lemma move_preserves:
  assumes "blocks_key db"
  shows "blocks_key (snd (post_admin_blocks_move db sess i body ts))
         \<and> (\<forall>p. gapless db p \<longrightarrow> gapless (snd (post_admin_blocks_move db sess i body ts)) p)"
proof (cases "\<exists>u b. sess = Some u \<and> select_block_by_id db i = Some b")
  case False
  then have "snd (post_admin_blocks_move db sess i body ts) = db"
    by (auto simp: post_admin_blocks_move_def requireAuth_def Let_def split: option.splits)
  with assms show ?thesis by simp
next
  case True
  then obtain u blk where s: "sess = Some u" and f: "select_block_by_id db i = Some blk" by blast
  from move_cases [OF s f, of body ts]
  consider "snd (post_admin_blocks_move db sess i body ts) = db"
    | a b where "a \<in> set (page_blocks db (block_page_id blk))"
        "b \<in> set (page_blocks db (block_page_id blk))"
        "snd (post_admin_blocks_move db sess i body ts) = db\<lparr>blocks := map (swapped a b ts) (blocks db)\<rparr>"
    by force
  then show ?thesis
  proof cases
    case 1
    with assms show ?thesis by simp
  next
    case (2 a b)
    have "blocks_key (db\<lparr>blocks := map (swapped a b ts) (blocks db)\<rparr>)"
      using assms(1) by (simp add: blocks_key_def comp_def)
    moreover have "gapless (db\<lparr>blocks := map (swapped a b ts) (blocks db)\<rparr>) q"
      if "gapless db q" for q
      using swapped_gapless [OF assms(1) 2(1,2)] that by simp
    ultimately show ?thesis using 2(3) by simp
  qed
qed

lemma block_request_preserves: "blocks_inv db p \<Longrightarrow> blocks_inv (block_request db r) p"
proof -
  assume inv: "blocks_inv db p"
  obtain sess op where r: "r = (sess, op)" by (cases r)
  show ?thesis
    using inv add_preserves [of db] delete_preserves [of db] move_preserves [of db]
    by (cases op) (simp_all add: r blocks_inv_def)
qed

lemma block_requests_preserve: "blocks_inv db p \<Longrightarrow> blocks_inv (block_requests db rs) p"
  unfolding block_requests_def
  by (induction rs arbitrary: db) (simp_all add: block_request_preserves)

section \<open>Adding, moving and the listing\<close>

lemma demo_blocks_inv: "blocks_key demo_blocks \<and> (\<forall>p. gapless demo_blocks p)"
  by (auto simp: blocks_key_def gapless_def positions_def page_blocks_def demo_blocks_def demo_block_def)

text \<open>
  C1. Take a database in which block ids are unique (the primary key) and a page whose
  positions are exactly \<open>1, ..., N\<close> for its \<open>N\<close> blocks. After one add, delete or move
  request, and after any finite sequence of them, whatever the session, the target, the
  arguments and the outcome of each request, the positions of the page are again
  distinct and their set is exactly \<open>{1, ..., N}\<close> for the \<open>N\<close> blocks the page then has.
\<close>

theorem positions_stay_gapless:
  assumes "blocks_key db" and "gapless db p"
  shows "distinct (positions (block_request db r) p)
         \<and> set (positions (block_request db r) p) = {1 .. int (count_blocks (block_request db r) p)}
         \<and> distinct (positions (block_requests db rs) p)
         \<and> set (positions (block_requests db rs) p) = {1 .. int (count_blocks (block_requests db rs) p)}"
proof -
  from assms have inv: "blocks_inv db p" by (simp add: blocks_inv_def)
  have "blocks_inv (block_request db r) p" by (rule block_request_preserves [OF inv])
  moreover have "blocks_inv (block_requests db rs) p" by (rule block_requests_preserve [OF inv])
  ultimately show ?thesis
    by (simp add: blocks_inv_def gapless_def count_blocks_def positions_def)
qed

theorem positions_stay_gapless_witness:
  "blocks_key demo_blocks \<and> gapless demo_blocks 1
   \<and> distinct (positions (block_requests demo_blocks demo_requests) 1)
   \<and> set (positions (block_requests demo_blocks demo_requests) 1)
       = {1 .. int (count_blocks (block_requests demo_blocks demo_requests) 1)}
   \<and> map (\<lambda>b. (block_id b, block_position b))
         (page_blocks (block_requests demo_blocks demo_requests) 1) = [(2, 2), (4, 1), (5, 3)]"
proof -
  have run: "map (\<lambda>b. (block_id b, block_position b))
         (page_blocks (block_requests demo_blocks demo_requests) 1) = [(2, 2), (4, 1), (5, 3)]"
    by code_simp
  from positions_stay_gapless [of demo_blocks 1 "hd demo_requests" demo_requests] demo_blocks_inv run
  show ?thesis by simp
qed

lemma insort_key_snoc:
  "f y \<le> f x \<Longrightarrow> insort_key f y (ys @ [x]) = insort_key f y ys @ [x]"
  by (induction ys) auto

lemma foldr_insort_last:
  "\<forall>y \<in> set xs. f y \<le> f x \<Longrightarrow> \<exists>ys. foldr (insort_key f) xs [x] = ys @ [x]"
proof (induction xs)
  case Nil
  then show ?case by simp
next
  case (Cons y xs)
  then obtain ys where "foldr (insort_key f) xs [x] = ys @ [x]" by auto
  moreover from Cons.prems have "f y \<le> f x" by simp
  ultimately show ?case by (simp add: insort_key_snoc)
qed

lemma sort_key_snoc_last:
  "\<forall>y \<in> set xs. f y \<le> f x \<Longrightarrow> last (sort_key f (xs @ [x])) = x"
  using foldr_insort_last [of xs f x] by (auto simp: sort_key_def)

text \<open>
  C8. For an authenticated request to add a block of one of the five types to a stored
  page, the handler appends one row to the blocks table; its position is the number of
  blocks the page had, plus one; and when the positions of the page were gapless, this
  row is the last of the page's listing by ascending position.
\<close>

theorem appended_block_is_last:
  assumes "sess = Some u" and "select_page_by_id db p = Some page"
    and "body ''type'' = Some ty" and "ty \<in> set block_types"
  shows "let new = \<lparr>block_id = next_rowid (blocks_seq db) (map block_id (blocks db)),
                    block_page_id = p, block_type = ty,
                    block_data_json = JSON_stringify (default_data (Some ty)),
                    block_position = int (count_blocks db p) + 1,
                    block_created_at = t, block_updated_at = t\<rparr>;
             db' = snd (post_admin_pages_blocks_add db sess p body t)
         in fst (post_admin_pages_blocks_add db sess p body t) = Redirect (blocks_url p)
            \<and> blocks db' = blocks db @ [new]
            \<and> (gapless db p \<longrightarrow> last (select_blocks_by_page db' p) = new)"
proof -
  let ?new = "\<lparr>block_id = next_rowid (blocks_seq db) (map block_id (blocks db)),
                block_page_id = p, block_type = ty,
                block_data_json = JSON_stringify (default_data (Some ty)),
                block_position = int (count_blocks db p) + 1,
                block_created_at = t, block_updated_at = t\<rparr>"
  let ?db' = "db\<lparr>blocks := blocks db @ [?new],
                 blocks_seq := next_rowid (blocks_seq db) (map block_id (blocks db))\<rparr>"
  from select_page_by_id_Some [OF assms(2)] have pg: "page \<in> set (pages db)" "page_id page = p"
    by simp_all
  then have ex: "p \<in> set (map page_id (pages db))" by force
  have ins: "insert_block db p (Some ty) (JSON_stringify (default_data (Some ty)))
               (int (count_blocks db p) + 1) t = Inr ?db'"
    using assms(4) ex by (simp add: insert_block_def Let_def)
  have r: "post_admin_pages_blocks_add db sess p body t = (Redirect (blocks_url p), ?db')"
    using assms(1,2,3) pg(2) ins
    by (simp add: post_admin_pages_blocks_add_def requireAuth_def Let_def)
  have "last (select_blocks_by_page ?db' p) = ?new" if g: "gapless db p"
  proof -
    have pb: "page_blocks ?db' p = page_blocks db p @ [?new]"
      by (simp add: page_blocks_def)
    have "block_position y \<le> block_position ?new" if "y \<in> set (page_blocks db p)" for y
    proof -
      from that have "block_position y \<in> set (positions db p)" by (simp add: positions_def)
      with g have "block_position y \<le> int (length (positions db p))" by (simp add: gapless_def)
      then show ?thesis by (simp add: positions_def count_blocks_def)
    qed
    then show ?thesis
      unfolding select_blocks_by_page_def pb
      by (intro sort_key_snoc_last) blast
  qed
  then show ?thesis by (simp add: r Let_def)
qed

theorem appended_block_is_last_witness:
  "select_page_by_id demo_blocks 1 = Some (demo_page 1 ''Sensors 101'' ''sensors-101'')
   \<and> ''callout'' \<in> set block_types
   \<and> gapless demo_blocks 1
   \<and> map (\<lambda>b. (block_id b, block_type b, block_position b))
        (select_blocks_by_page
           (snd (post_admin_pages_blocks_add demo_blocks (Some admin_session) 1
                   [''type'' \<mapsto> ''callout''] ''2024-03-02T00:00:00.000Z'')) 1)
      = [(1, ''quiz'', 1), (2, ''text'', 2), (4, ''image'', 3), (5, ''callout'', 4)]
   \<and> last (select_blocks_by_page
           (snd (post_admin_pages_blocks_add demo_blocks (Some admin_session) 1
                   [''type'' \<mapsto> ''callout''] ''2024-03-02T00:00:00.000Z'')) 1)
      = \<lparr>block_id = 5, block_page_id = 1, block_type = ''callout'',
         block_data_json = JSON_stringify (default_data (Some ''callout'')),
         block_position = 4,
         block_created_at = ''2024-03-02T00:00:00.000Z'',
         block_updated_at = ''2024-03-02T00:00:00.000Z''\<rparr>"
proof -
  have pg: "select_page_by_id demo_blocks 1 = Some (demo_page 1 ''Sensors 101'' ''sensors-101'')"
    by (simp add: select_page_by_id_def demo_blocks_def demo_page_def)
  have ty: "''callout'' \<in> set block_types" by (simp add: block_types_def)
  have g: "gapless demo_blocks 1" using demo_blocks_inv by simp
  have ids: "next_rowid (blocks_seq demo_blocks) (map block_id (blocks demo_blocks)) = 5"
    by (simp add: next_rowid_def demo_blocks_def demo_block_def)
  have cnt: "count_blocks demo_blocks 1 = 3"
    by (simp add: count_blocks_def page_blocks_def demo_blocks_def demo_block_def)
  have lst: "map (\<lambda>b. (block_id b, block_type b, block_position b))
        (select_blocks_by_page
           (snd (post_admin_pages_blocks_add demo_blocks (Some admin_session) 1
                   [''type'' \<mapsto> ''callout''] ''2024-03-02T00:00:00.000Z'')) 1)
      = [(1, ''quiz'', 1), (2, ''text'', 2), (4, ''image'', 3), (5, ''callout'', 4)]"
    by code_simp
  from appended_block_is_last
         [of "Some admin_session" admin_session demo_blocks 1
             "demo_page 1 ''Sensors 101'' ''sensors-101''" "[''type'' \<mapsto> ''callout'']"
             "''callout''" "''2024-03-02T00:00:00.000Z''"]
  show ?thesis
    using pg ty g lst ids cnt by (simp add: Let_def)
qed

lemma listing_positions:
  assumes "gapless db p"
  shows "map block_position (select_blocks_by_page db p) = [1 .. int (length (page_blocks db p))]"
proof -
  let ?L = "select_blocks_by_page db p"
  let ?n = "int (length (page_blocks db p))"
  from assms have "mset (positions db p) = mset [1 .. int (length (positions db p))]"
    by (simp add: gapless_iff_mset)
  then have m: "mset (map block_position ?L) = mset [1 .. ?n]"
    by (simp add: positions_def)
  have s: "sorted (map block_position ?L)"
    unfolding select_blocks_by_page_def by (rule sorted_sort_key)
  from properties_for_sort [OF m s] have "sort [1 .. ?n] = map block_position ?L" .
  moreover have "sort [1 .. ?n] = [1 .. ?n]" by (simp add: sort_key_id_if_sorted)
  ultimately show ?thesis by simp
qed

lemma listing_nth_position:
  assumes "gapless db p" and "j < length (page_blocks db p)"
  shows "block_position (select_blocks_by_page db p ! j) = int j + 1"
proof -
  have "block_position (select_blocks_by_page db p ! j)
        = map block_position (select_blocks_by_page db p) ! j"
    using assms(2) by simp
  also have "\<dots> = [1 .. int (length (page_blocks db p))] ! j"
    by (simp only: listing_positions [OF assms(1)])
  also have "\<dots> = 1 + int j" using assms(2) by (subst nth_upto) simp_all
  finally show ?thesis by simp
qed

lemma move_when_found:
  assumes "sess = Some u" and "select_block_by_id db i = Some blk"
    and "findIndex (\<lambda>b. block_id b = block_id blk) (select_blocks_by_page db (block_page_id blk)) = int j"
  shows "post_admin_blocks_move db sess i body ts =
          (let L = select_blocks_by_page db (block_page_id blk);
               swapIdx = (if body ''dir'' = Some ''down'' then int j + 1
                          else if body ''dir'' = Some ''up'' then int j - 1 else int j)
           in if swapIdx < 0 \<or> int (length L) \<le> swapIdx
              then (Redirect (blocks_url (block_page_id blk)), db)
              else (Redirect (blocks_url (block_page_id blk)),
                    db\<lparr>blocks := map (swapped (L ! j) (L ! nat swapIdx) ts) (blocks db)\<rparr>))"
proof -
  have "int j \<noteq> - 1" by simp
  moreover note two_updates [of db _ _ ts, unfolded One_nat_def]
  ultimately show ?thesis
    using assms
    by (simp add: post_admin_blocks_move_def requireAuth_def Let_def
             del: blocks_update_block_position)
qed

text \<open>
  C3. Take a database with unique block ids, a block \<open>blk\<close> on a page whose positions are
  exactly \<open>1, ..., N\<close>, and an authenticated move request for it with direction \<open>up\<close> or
  \<open>down\<close>. If the block is first and the direction is up, or last and the direction is
  down, the handler redirects and the database is unchanged. Otherwise there is a block
  \<open>nb\<close> of the same page at the adjacent position in that direction, and the new blocks
  table is the old one with the position (and update time) of exactly these two rows
  changed: \<open>blk\<close> takes the position of \<open>nb\<close> and \<open>nb\<close> takes the position of \<open>blk\<close>.
\<close>

theorem move_is_adjacent_swap:
  assumes "blocks_key db" and "gapless db (block_page_id blk)"
    and "select_block_by_id db i = Some blk" and "sess = Some u"
    and "body ''dir'' = Some d" and "d = ''up'' \<or> d = ''down''"
  shows "let N = int (count_blocks db (block_page_id blk));
             target = (if d = ''up'' then block_position blk - 1 else block_position blk + 1)
         in if (d = ''up'' \<and> block_position blk = 1) \<or> (d = ''down'' \<and> block_position blk = N)
            then post_admin_blocks_move db sess i body ts
                   = (Redirect (blocks_url (block_page_id blk)), db)
            else (\<exists>nb \<in> set (page_blocks db (block_page_id blk)).
                    block_position nb = target \<and> block_id nb \<noteq> i
                    \<and> post_admin_blocks_move db sess i body ts =
                        (Redirect (blocks_url (block_page_id blk)),
                         db\<lparr>blocks :=
                              map (\<lambda>x. if block_id x = i
                                       then x\<lparr>block_position := target, block_updated_at := ts 0\<rparr>
                                       else if block_id x = block_id nb
                                       then x\<lparr>block_position := block_position blk,
                                              block_updated_at := ts 1\<rparr>
                                       else x)
                                (blocks db)\<rparr>))"
proof -
  let ?p = "block_page_id blk"
  let ?L = "select_blocks_by_page db ?p"
  let ?n = "length (page_blocks db ?p)"
  from select_block_by_id_Some [OF assms(3)] have b: "blk \<in> set (blocks db)" "block_id blk = i"
    by simp_all
  then have "blk \<in> set ?L" by (simp add: page_blocks_subset)
  then obtain j where j: "j < length ?L" "?L ! j = blk" by (metis in_set_conv_nth)
  then have jn: "j < ?n" by simp
  have d: "distinct (map block_id ?L)" by (rule distinct_ids_listing [OF assms(1)])
  have idx: "findIndex (\<lambda>b. block_id b = block_id blk) ?L = int j"
    using findIndex_nth [OF d j(1)] j(2) by simp
  have pos: "block_position blk = int j + 1"
    using listing_nth_position [OF assms(2) jn] j(2) by simp
  note mv = move_when_found [OF assms(4) assms(3) idx, of body ts]
  have swapped_eq: "map (swapped blk nb ts) (blocks db) =
          map (\<lambda>x. if block_id x = i
                   then x\<lparr>block_position := block_position nb, block_updated_at := ts 0\<rparr>
                   else if block_id x = block_id nb
                   then x\<lparr>block_position := block_position blk, block_updated_at := ts 1\<rparr>
                   else x) (blocks db)"
    if "block_id nb \<noteq> i" for nb
    using that b(2) by (auto simp: swapped_def Let_def)
  have neighbour: "?L ! k \<in> set (page_blocks db ?p) \<and> block_position (?L ! k) = int k + 1
                   \<and> block_id (?L ! k) \<noteq> i"
    if "k < ?n" "k \<noteq> j" for k
  proof -
    from that(1) have "?L ! k \<in> set ?L" by (intro nth_mem) simp
    moreover have "block_position (?L ! k) = int k + 1"
      by (rule listing_nth_position [OF assms(2) that(1)])
    moreover have "block_id (?L ! k) \<noteq> i"
    proof
      assume "block_id (?L ! k) = i"
      then have e: "map block_id ?L ! k = map block_id ?L ! j"
        using that(1) j b(2) by simp
      have lk: "k < length (map block_id ?L)" "j < length (map block_id ?L)"
        using that(1) jn by simp_all
      from nth_eq_iff_index_eq [OF d lk] e have "k = j" by blast
      with that(2) show False by simp
    qed
    ultimately show ?thesis by simp
  qed
  from assms(6) show ?thesis
  proof
    assume up: "d = ''up''"
    show ?thesis
    proof (cases "j = 0")
      case True
      then show ?thesis using mv up assms(5) pos by (simp add: Let_def)
    next
      case False
      then have k: "j - 1 < ?n" "j - 1 \<noteq> j" using jn by simp_all
      have sw: "nat (int j - 1) = j - 1" by simp
      from neighbour [OF k] False
      have nb: "?L ! (j - 1) \<in> set (page_blocks db ?p)"
        "block_position (?L ! (j - 1)) = block_position blk - 1"
        "block_id (?L ! (j - 1)) \<noteq> i"
        by (simp_all add: pos of_nat_diff)
      have "post_admin_blocks_move db sess i body ts =
              (Redirect (blocks_url ?p),
               db\<lparr>blocks := map (swapped blk (?L ! (j - 1)) ts) (blocks db)\<rparr>)"
        using mv up assms(5) False jn j(2) sw by (simp add: Let_def)
      then have "post_admin_blocks_move db sess i body ts =
              (Redirect (blocks_url ?p),
               db\<lparr>blocks := map (\<lambda>x. if block_id x = i
                   then x\<lparr>block_position := block_position (?L ! (j - 1)), block_updated_at := ts 0\<rparr>
                   else if block_id x = block_id (?L ! (j - 1))
                   then x\<lparr>block_position := block_position blk, block_updated_at := ts 1\<rparr>
                   else x) (blocks db)\<rparr>)"
        by (simp only: swapped_eq [OF nb(3)])
      with nb False show ?thesis
        using up pos by (auto simp: Let_def intro!: bexI [of _ "?L ! (j - 1)"])
    qed
  next
    assume down: "d = ''down''"
    then have nup: "d \<noteq> ''up''" by simp
    show ?thesis
    proof (cases "Suc j = ?n")
      case True
      then have "block_position blk = int (count_blocks db ?p)"
        using pos by (simp add: count_blocks_def)
      moreover have "int ?n \<le> int j + 1" using True by simp
      ultimately show ?thesis using mv down assms(5) by (simp add: Let_def)
    next
      case False
      then have k: "Suc j < ?n" "Suc j \<noteq> j" using jn by simp_all
      have sw: "nat (int j + 1) = Suc j" by simp
      from neighbour [OF k]
      have nb: "?L ! Suc j \<in> set (page_blocks db ?p)"
        "block_position (?L ! Suc j) = block_position blk + 1"
        "block_id (?L ! Suc j) \<noteq> i"
        by (simp_all add: pos)
      have nlast: "block_position blk \<noteq> int (count_blocks db ?p)"
        using pos False by (simp add: count_blocks_def)
      have "post_admin_blocks_move db sess i body ts =
              (Redirect (blocks_url ?p),
               db\<lparr>blocks := map (swapped blk (?L ! Suc j) ts) (blocks db)\<rparr>)"
        using mv down assms(5) k(1) j(2) sw by (simp add: Let_def)
      then have "post_admin_blocks_move db sess i body ts =
              (Redirect (blocks_url ?p),
               db\<lparr>blocks := map (\<lambda>x. if block_id x = i
                   then x\<lparr>block_position := block_position (?L ! Suc j), block_updated_at := ts 0\<rparr>
                   else if block_id x = block_id (?L ! Suc j)
                   then x\<lparr>block_position := block_position blk, block_updated_at := ts 1\<rparr>
                   else x) (blocks db)\<rparr>)"
        by (simp only: swapped_eq [OF nb(3)])
      with nb nlast show ?thesis
        using down nup by (auto simp: Let_def intro!: bexI [of _ "?L ! Suc j"])
    qed
  qed
qed

theorem move_is_adjacent_swap_witness:
  "blocks_key demo_blocks \<and> gapless demo_blocks 1
   \<and> select_block_by_id demo_blocks 2 = Some (demo_block 2 1 ''text'' 2)
   \<and> (\<exists>nb \<in> set (page_blocks demo_blocks 1).
         block_position nb = 1 \<and> block_id nb \<noteq> 2
         \<and> post_admin_blocks_move demo_blocks (Some admin_session) 2 move_up_form demo_clock =
             (Redirect (blocks_url 1),
              demo_blocks\<lparr>blocks :=
                 map (\<lambda>x. if block_id x = 2
                          then x\<lparr>block_position := 1, block_updated_at := demo_clock 0\<rparr>
                          else if block_id x = block_id nb
                          then x\<lparr>block_position := 2, block_updated_at := demo_clock 1\<rparr>
                          else x)
                   (blocks demo_blocks)\<rparr>))
   \<and> map (\<lambda>b. (block_id b, block_position b))
         (blocks (snd (post_admin_blocks_move demo_blocks (Some admin_session) 2 move_up_form demo_clock)))
       = [(1, 2), (2, 1), (3, 1), (4, 3)]
   \<and> post_admin_blocks_move demo_blocks (Some admin_session) 1 move_up_form demo_clock
       = (Redirect (blocks_url 1), demo_blocks)"
proof -
  have sel: "select_block_by_id demo_blocks 2 = Some (demo_block 2 1 ''text'' 2)"
    by (simp add: select_block_by_id_def demo_blocks_def demo_block_def)
  have run: "map (\<lambda>b. (block_id b, block_position b))
         (blocks (snd (post_admin_blocks_move demo_blocks (Some admin_session) 2 move_up_form demo_clock)))
       = [(1, 2), (2, 1), (3, 1), (4, 3)]"
    by code_simp
  have noop: "post_admin_blocks_move demo_blocks (Some admin_session) 1 move_up_form demo_clock
       = (Redirect (blocks_url 1), demo_blocks)"
    by code_simp
  have f: "move_up_form ''dir'' = Some ''up''" by (simp add: move_up_form_def)
  from move_is_adjacent_swap
         [of demo_blocks "demo_block 2 1 ''text'' 2" 2 "Some admin_session" admin_session
             move_up_form "''up''" demo_clock]
  show ?thesis
    using demo_blocks_inv sel run noop f by (simp add: Let_def demo_block_def cong: if_cong)
qed

section \<open>Editing a block\<close>

lemma edited_data_quiz:
  "edited_data ''quiz'' body = None \<longleftrightarrow>
   \<not> (\<exists>kvs qs. JSON_parse (js_to_string (body ''quiz_json'')) = Some (JObj kvs)
                 \<and> map_of kvs ''questions'' = Some (JArr qs))"
proof (cases "JSON_parse (js_to_string (body ''quiz_json''))")
  case None
  then show ?thesis
    by (simp add: edited_data_def parseJsonSafe_def js_falsy_def)
next
  case (Some v)
  then show ?thesis
    by (cases v)
       (auto simp: edited_data_def parseJsonSafe_def js_falsy_def js_get_def Array_isArray_def
             split: option.splits json.splits)
qed

text \<open>
  C5. For an authenticated edit of a stored block, with any form: if the block is a quiz
  and the submitted \<^verbatim>\<open>quiz_json\<close> does not parse to an object whose \<^verbatim>\<open>questions\<close> is a
  list, the handler renders the editor with the message for an invalid quiz and with
  the stored payload as data, and the database is unchanged. If the block is a text,
  image, video or callout block, the handler never renders the editor with an error:
  it stores the payload built from the fields of the form, where \<^verbatim>\<open>x || d\<close> is \<open>d\<close> for
  a missing or empty field \<open>x\<close> and the submitted text otherwise, and \<open>d\<close> is the empty
  string for every field except the video mode, where it is \<^verbatim>\<open>youtube\<close>, and the callout
  kind, where it is \<^verbatim>\<open>Key idea\<close>. The response is the redirect to the block list of the
  page (with no page row, reading \<^verbatim>\<open>page.id\<close> throws after the update).
\<close>

theorem edit_validation:
  assumes "sess = Some u" and "select_block_by_id db i = Some blk"
  shows "(block_type blk = ''quiz''
            \<and> \<not> (\<exists>kvs qs. JSON_parse (js_to_string (body ''quiz_json'')) = Some (JObj kvs)
                            \<and> map_of kvs ''questions'' = Some (JArr qs))
          \<longrightarrow> post_admin_blocks_edit db sess i body t =
                (Render 200 ''admin/block_edit''
                   [(''user'', LUser u),
                    (''page'', page_or_undefined (select_page_by_id db (block_page_id blk))),
                    (''block'', LBlock blk),
                    (''data'', LJson (parseJsonSafe (block_data_json blk) (JObj []))),
                    (''error'', LStr quiz_error)],
                 db))
         \<and> (block_type blk = ''text''
          \<longrightarrow> post_admin_blocks_edit db sess i body t =
                ((case select_page_by_id db (block_page_id blk) of
                   None \<Rightarrow> Unhandled
                 | Some p \<Rightarrow> Redirect (blocks_url (page_id p))),
                 update_block_data db i (JSON_stringify
                   (text_data (js_or (body ''heading'') []) (js_or (body ''body'') []))) t))
         \<and> (block_type blk = ''image''
          \<longrightarrow> post_admin_blocks_edit db sess i body t =
                ((case select_page_by_id db (block_page_id blk) of
                   None \<Rightarrow> Unhandled
                 | Some p \<Rightarrow> Redirect (blocks_url (page_id p))),
                 update_block_data db i (JSON_stringify
                   (image_data (js_or (body ''heading'') []) (js_or (body ''imageUrl'') [])
                      (js_or (body ''caption'') []))) t))
         \<and> (block_type blk = ''video''
          \<longrightarrow> post_admin_blocks_edit db sess i body t =
                ((case select_page_by_id db (block_page_id blk) of
                   None \<Rightarrow> Unhandled
                 | Some p \<Rightarrow> Redirect (blocks_url (page_id p))),
                 update_block_data db i (JSON_stringify
                   (video_data (js_or (body ''heading'') []) (js_or (body ''mode'') ''youtube'')
                      (js_or (body ''youtubeUrl'') []) (js_or (body ''mp4Url'') [])
                      (js_or (body ''caption'') []))) t))
         \<and> (block_type blk = ''callout''
          \<longrightarrow> post_admin_blocks_edit db sess i body t =
                ((case select_page_by_id db (block_page_id blk) of
                   None \<Rightarrow> Unhandled
                 | Some p \<Rightarrow> Redirect (blocks_url (page_id p))),
                 update_block_data db i (JSON_stringify
                   (callout_data (js_or (body ''kind'') ''Key idea'') (js_or (body ''body'') []))) t))
         \<and> (body k = None \<or> body k = Some [] \<longrightarrow> js_or (body k) d = d)
         \<and> (body k = Some s \<and> s \<noteq> [] \<longrightarrow> js_or (body k) d = s)
         \<and> edited_data ''text'' Map.empty = Some (text_data [] [])
         \<and> edited_data ''image'' Map.empty = Some (image_data [] [] [])
         \<and> edited_data ''video'' Map.empty = Some (video_data [] ''youtube'' [] [] [])
         \<and> edited_data ''callout'' Map.empty = Some (callout_data ''Key idea'' [])"
proof -
  from select_block_by_id_Some [OF assms(2)] have b: "block_id blk = i" by simp
  have quiz: "post_admin_blocks_edit db sess i body t =
                (Render 200 ''admin/block_edit''
                   [(''user'', LUser u),
                    (''page'', page_or_undefined (select_page_by_id db (block_page_id blk))),
                    (''block'', LBlock blk),
                    (''data'', LJson (parseJsonSafe (block_data_json blk) (JObj []))),
                    (''error'', LStr quiz_error)],
                 db)"
    if h: "block_type blk = ''quiz''
        \<and> \<not> (\<exists>kvs qs. JSON_parse (js_to_string (body ''quiz_json'')) = Some (JObj kvs)
                        \<and> map_of kvs ''questions'' = Some (JArr qs))"
  proof -
    from h have ty: "block_type blk = ''quiz''" by simp
    from h have "edited_data ''quiz'' body = None"
      by (simp only: edited_data_quiz) simp
    then show ?thesis
      using assms ty by (simp add: post_admin_blocks_edit_def requireAuth_def Let_def)
  qed
  have stored: "post_admin_blocks_edit db sess i body t =
                  ((case select_page_by_id db (block_page_id blk) of
                      None \<Rightarrow> Unhandled
                    | Some p \<Rightarrow> Redirect (blocks_url (page_id p))),
                   update_block_data db i (JSON_stringify data) t)"
    if "edited_data (block_type blk) body = Some data" for data
    using that assms b
    by (simp add: post_admin_blocks_edit_def requireAuth_def Let_def split: option.splits)
  have payload:
    "edited_data ''text'' body = Some (text_data (js_or (body ''heading'') []) (js_or (body ''body'') []))"
    "edited_data ''image'' body =
       Some (image_data (js_or (body ''heading'') []) (js_or (body ''imageUrl'') [])
                      (js_or (body ''caption'') []))"
    "edited_data ''video'' body =
       Some (video_data (js_or (body ''heading'') []) (js_or (body ''mode'') ''youtube'')
                      (js_or (body ''youtubeUrl'') []) (js_or (body ''mp4Url'') [])
                      (js_or (body ''caption'') []))"
    "edited_data ''callout'' body = Some (callout_data (js_or (body ''kind'') ''Key idea'') (js_or (body ''body'') []))"
    by (simp_all add: edited_data_def)
  have defaults:
    "edited_data ''text'' Map.empty = Some (text_data [] [])"
    "edited_data ''image'' Map.empty = Some (image_data [] [] [])"
    "edited_data ''video'' Map.empty = Some (video_data [] ''youtube'' [] [] [])"
    "edited_data ''callout'' Map.empty = Some (callout_data ''Key idea'' [])"
    by (simp_all add: edited_data_def js_or_def)
  have or1: "js_or (body k) d = d" if "body k = None \<or> body k = Some []"
    using that by (auto simp: js_or_def)
  have or2: "js_or (body k) d = s" if "body k = Some s \<and> s \<noteq> []"
    using that by (simp add: js_or_def)
  show ?thesis
  proof (intro conjI impI)
    show "edited_data ''text'' Map.empty = Some (text_data [] [])" by (rule defaults)
    show "edited_data ''image'' Map.empty = Some (image_data [] [] [])" by (rule defaults)
    show "edited_data ''video'' Map.empty = Some (video_data [] ''youtube'' [] [] [])"
      by (rule defaults)
    show "edited_data ''callout'' Map.empty = Some (callout_data ''Key idea'' [])"
      by (rule defaults)
    show "js_or (body k) d = d" if "body k = None \<or> body k = Some []"
      using that by (rule or1)
    show "js_or (body k) d = s" if "body k = Some s \<and> s \<noteq> []"
      using that by (rule or2)
    show "post_admin_blocks_edit db sess i body t =
                (Render 200 ''admin/block_edit''
                   [(''user'', LUser u),
                    (''page'', page_or_undefined (select_page_by_id db (block_page_id blk))),
                    (''block'', LBlock blk),
                    (''data'', LJson (parseJsonSafe (block_data_json blk) (JObj []))),
                    (''error'', LStr quiz_error)],
                 db)"
      if "block_type blk = ''quiz''
        \<and> \<not> (\<exists>kvs qs. JSON_parse (js_to_string (body ''quiz_json'')) = Some (JObj kvs)
                        \<and> map_of kvs ''questions'' = Some (JArr qs))"
      using that by (rule quiz)
  next
    assume "block_type blk = ''text''"
    then show "post_admin_blocks_edit db sess i body t =
                ((case select_page_by_id db (block_page_id blk) of
                   None \<Rightarrow> Unhandled
                 | Some p \<Rightarrow> Redirect (blocks_url (page_id p))),
                 update_block_data db i (JSON_stringify
                   (text_data (js_or (body ''heading'') []) (js_or (body ''body'') []))) t)"
      by (intro stored) (simp add: payload)
  next
    assume "block_type blk = ''image''"
    then show "post_admin_blocks_edit db sess i body t =
                ((case select_page_by_id db (block_page_id blk) of
                   None \<Rightarrow> Unhandled
                 | Some p \<Rightarrow> Redirect (blocks_url (page_id p))),
                 update_block_data db i (JSON_stringify
                   (image_data (js_or (body ''heading'') []) (js_or (body ''imageUrl'') [])
                      (js_or (body ''caption'') []))) t)"
      by (intro stored) (simp add: payload)
  next
    assume "block_type blk = ''video''"
    then show "post_admin_blocks_edit db sess i body t =
                ((case select_page_by_id db (block_page_id blk) of
                   None \<Rightarrow> Unhandled
                 | Some p \<Rightarrow> Redirect (blocks_url (page_id p))),
                 update_block_data db i (JSON_stringify
                   (video_data (js_or (body ''heading'') []) (js_or (body ''mode'') ''youtube'')
                      (js_or (body ''youtubeUrl'') []) (js_or (body ''mp4Url'') [])
                      (js_or (body ''caption'') []))) t)"
      by (intro stored) (simp add: payload)
  next
    assume "block_type blk = ''callout''"
    then show "post_admin_blocks_edit db sess i body t =
                ((case select_page_by_id db (block_page_id blk) of
                   None \<Rightarrow> Unhandled
                 | Some p \<Rightarrow> Redirect (blocks_url (page_id p))),
                 update_block_data db i (JSON_stringify
                   (callout_data (js_or (body ''kind'') ''Key idea'') (js_or (body ''body'') []))) t)"
      by (intro stored) (simp add: payload)
  qed
qed

theorem edit_validation_witness:
  "select_block_by_id callout_db 2 = Some (demo_block 2 1 ''quiz'' 2)
   \<and> JSON_parse (js_to_string (bad_quiz_form ''quiz_json''))
       = Some (JObj [(''title'', JStr ''Q''), (''questions'', JObj [])])
   \<and> post_admin_blocks_edit callout_db (Some admin_session) 2 bad_quiz_form ''2024-04-01T00:00:00.000Z'' =
       (Render 200 ''admin/block_edit''
          [(''user'', LUser admin_session),
           (''page'', LPage (demo_page 1 ''Sensors 101'' ''sensors-101'')),
           (''block'', LBlock (demo_block 2 1 ''quiz'' 2)),
           (''data'', LJson (default_data (Some ''quiz''))),
           (''error'', LStr quiz_error)],
        callout_db)
   \<and> select_block_by_id callout_db 1 = Some (demo_block 1 1 ''callout'' 1)
   \<and> callout_body_form ''kind'' = None
   \<and> callout_body_form ''body'' = Some ''Note''
   \<and> post_admin_blocks_edit callout_db (Some admin_session) 1 callout_body_form
        ''2024-04-01T00:00:00.000Z'' =
       (Redirect (blocks_url 1),
        update_block_data callout_db 1 (JSON_stringify (callout_data ''Key idea'' ''Note''))
          ''2024-04-01T00:00:00.000Z'')"
proof -
  have sel: "select_block_by_id callout_db 2 = Some (demo_block 2 1 ''quiz'' 2)"
    "select_block_by_id callout_db 1 = Some (demo_block 1 1 ''callout'' 1)"
    by (simp_all add: select_block_by_id_def callout_db_def demo_block_def)
  have p: "JSON_parse (js_to_string (bad_quiz_form ''quiz_json''))
       = Some (JObj [(''title'', JStr ''Q''), (''questions'', JObj [])])"
    by code_simp
  have pg: "select_page_by_id callout_db (block_page_id (demo_block 2 1 ''quiz'' 2))
            = Some (demo_page 1 ''Sensors 101'' ''sensors-101'')"
    "select_page_by_id callout_db (block_page_id (demo_block 1 1 ''callout'' 1))
            = Some (demo_page 1 ''Sensors 101'' ''sensors-101'')"
    by (simp_all add: select_page_by_id_def callout_db_def demo_block_def demo_page_def)
  have ty: "block_type (demo_block 2 1 ''quiz'' 2) = ''quiz''"
    "block_type (demo_block 1 1 ''callout'' 1) = ''callout''"
    by (simp_all add: demo_block_def)
  have q: "default_data (Some ''quiz'') =
           quiz_data ''Quick Quiz''
             [\<lparr>q_text = ''Sample question 1?'', q_options = [''A'', ''B'', ''C'', ''D''], q_answer = 0\<rparr>]"
    by (simp add: default_data_def)
  have data: "parseJsonSafe (block_data_json (demo_block 2 1 ''quiz'' 2)) (JObj [])
              = default_data (Some ''quiz'')"
    by (simp add: demo_block_def q parseJsonSafe_stringify wf_payloads)
  have f: "callout_body_form ''kind'' = None" "callout_body_form ''body'' = Some ''Note''"
    by (simp_all add: callout_body_form_def)
  have o: "js_or (callout_body_form ''kind'') ''Key idea'' = ''Key idea''"
    "js_or (callout_body_form ''body'') [] = ''Note''"
    by (simp_all add: f js_or_def)
  have pid: "page_id (demo_page 1 ''Sensors 101'' ''sensors-101'') = 1"
    by (simp add: demo_page_def)
  from edit_validation
         [of "Some admin_session" admin_session callout_db 2 "demo_block 2 1 ''quiz'' 2"
             bad_quiz_form "''2024-04-01T00:00:00.000Z''"]
  have a: "post_admin_blocks_edit callout_db (Some admin_session) 2 bad_quiz_form ''2024-04-01T00:00:00.000Z'' =
       (Render 200 ''admin/block_edit''
          [(''user'', LUser admin_session),
           (''page'', LPage (demo_page 1 ''Sensors 101'' ''sensors-101'')),
           (''block'', LBlock (demo_block 2 1 ''quiz'' 2)),
           (''data'', LJson (default_data (Some ''quiz''))),
           (''error'', LStr quiz_error)],
        callout_db)"
    using sel p pg ty data by (simp add: page_or_undefined_def)
  from edit_validation
         [of "Some admin_session" admin_session callout_db 1 "demo_block 1 1 ''callout'' 1"
             callout_body_form "''2024-04-01T00:00:00.000Z''"]
  have c: "post_admin_blocks_edit callout_db (Some admin_session) 1 callout_body_form
        ''2024-04-01T00:00:00.000Z'' =
       (Redirect (blocks_url 1),
        update_block_data callout_db 1 (JSON_stringify (callout_data ''Key idea'' ''Note''))
          ''2024-04-01T00:00:00.000Z'')"
    using sel pg ty o pid by simp
  show ?thesis using sel p a f c by simp
qed

text \<open>
  Editing the callout block of \<open>callout_db\<close> with an empty form stores the kind
  \<^verbatim>\<open>Key idea\<close>, not the empty string.
\<close>

theorem callout_kind_default_counterexample:
  "map block_data_json
     (blocks (snd (post_admin_blocks_edit callout_db (Some admin_session) 1 Map.empty
                     ''2024-04-01T00:00:00.000Z'')))
     ! 0 = ''{\"kind\":\"Key idea\",\"body\":\"\"}''
   \<and> js_get (parseJsonSafe
        (map block_data_json
           (blocks (snd (post_admin_blocks_edit callout_db (Some admin_session) 1 Map.empty
                           ''2024-04-01T00:00:00.000Z''))) ! 0) (JObj [])) ''kind''
      \<noteq> Some (JStr [])"
  by code_simp

section \<open>Deleting a page\<close>

text \<open>When the connection enforces foreign keys, deleting a stored page removes its
  blocks.\<close>

lemma delete_page_cascades_when_enforced:
  assumes "foreign_keys db" and "sess = Some u" and "su_role u = ''admin''"
    and "i \<in> set (map page_id (pages db))"
  shows "\<forall>b \<in> set (blocks (snd (post_admin_pages_delete db sess i))). block_page_id b \<noteq> i"
  using assms by (simp add: post_admin_pages_delete_def requireAuth_def delete_page_def Let_def)

text \<open>
  C2. On a database opened by \<open>initDb\<close>, create a page, add a text block to it and
  delete the page as an admin: the page row is gone, the block row that references it
  is still stored, the block listing of the page answers 404, and the direct fetch of
  the block (the edit view) still renders it, with no page.
\<close>

theorem page_delete_leaves_blocks:
  "foreign_keys (initDb empty_file) = False
   \<and> select_page_by_id orphan_run 1 = None
   \<and> map (\<lambda>b. (block_id b, block_page_id b)) (blocks orphan_run) = [(1, 1)]
   \<and> get_admin_pages_blocks orphan_run (Some admin_session) 1 = Send 404 ''Page not found''
   \<and> get_admin_blocks_edit orphan_run (Some admin_session) 1 =
       Render 200 ''admin/block_edit''
         [(''user'', LUser admin_session),
          (''page'', LUndefined),
          (''block'',
           LBlock \<lparr>block_id = 1, block_page_id = 1, block_type = ''text'',
                   block_data_json = ''{\"heading\":\"\",\"body\":\"\"}'',
                   block_position = 1,
                   block_created_at = ''2024-04-01T00:00:00.000Z'',
                   block_updated_at = ''2024-04-01T00:00:00.000Z''\<rparr>),
          (''data'', LJson (JObj [(''heading'', JStr []), (''body'', JStr [])])),
          (''error'', LNull)]"
  by code_simp

end
